theory Spec2Isabelle
  imports Main
begin

section \<open>The buffer pool: data model\<close>

text \<open>
  A shallow embedding of the refined header of the repository (the class template
  \<open>buffer_pool\<close> with \<open>request\<close>, \<open>release\<close>, \<open>resize\<close>, \<open>Chunk::shrink\<close> and
  the counters \<open>used_chunks\<close>, \<open>unused_chunks\<close>).

  \<^item> A pointer (\<open>pointer_t\<close>) is the address it holds, a natural number counted in
    elements of the span; \<open>nullptr\<close> is the address 0. Pointer addition is addition of
    naturals.
  \<^item> \<open>size_t\<close> is a natural number below \<open>2 ^ 64\<close>; the conversion of a pointer
    difference (\<open>std::distance\<close>, a signed \<open>ptrdiff_t\<close>) to \<open>size_t\<close> and the
    additions and subtractions in \<open>size_t\<close> wrap modulo \<open>2 ^ 64\<close>, written out.
  \<^item> A failed \<open>assert\<close> and the exception \<open>std::overflow_error\<close> are values of the
    type \<open>error\<close>; a function that can fail returns a sum, \<open>Inl\<close> the error.
  \<^item> The pool and the chunk handles are passed explicitly: a member function that
    mutates the pool returns the new pool, one that mutates a handle returns the new
    handle.
\<close>

type_synonym pointer_t = nat

record span_t =
  sp_data :: pointer_t
  sp_size :: nat

text \<open>\<open>span_t()\<close>: the empty span, whose \<open>data()\<close> is \<open>nullptr\<close>.\<close>

definition span_default :: span_t where
  "span_default = \<lparr>sp_data = 0, sp_size = 0\<rparr>"

text \<open>\<open>span_t(begin, size)\<close>, \<open>s.begin()\<close> and \<open>s.end()\<close>.\<close>

definition span_of :: "pointer_t \<Rightarrow> nat \<Rightarrow> span_t" where
  "span_of b n = \<lparr>sp_data = b, sp_size = n\<rparr>"

definition span_begin :: "span_t \<Rightarrow> pointer_t" where
  "span_begin s = sp_data s"

definition span_end :: "span_t \<Rightarrow> pointer_t" where
  "span_end s = sp_data s + sp_size s"

text \<open>\<open>struct mgm_chunk\<close>: the bookkeeping entry of one segment.\<close>

record mgm_chunk =
  m_first :: pointer_t
  m_inUse :: bool

text \<open>The back-reference of a handle: \<open>nullptr\<close> or the address of the one pool.\<close>

datatype pool_ptr = nullptr | this_pool

record Chunk =
  m_chunk :: span_t
  m_pool :: pool_ptr

record buffer_pool =
  m_memory :: span_t
  m_chunks :: "mgm_chunk list"
  m_last :: pointer_t

datatype error =
  assert_failed | overflow_error | runtime_error | null_dereference | no_such_handle

section \<open>Helpers of the standard library\<close>

text \<open>
  \<open>std::find_if\<close> over a vector: the index of the first element that satisfies the
  predicate, the length of the vector (\<open>end()\<close>) when there is none.
\<close>

fun find_if :: "('a \<Rightarrow> bool) \<Rightarrow> 'a list \<Rightarrow> nat" where
  "find_if P [] = 0"
| "find_if P (x # xs) = (if P x then 0 else Suc (find_if P xs))"

text \<open>The same search with a predicate that can fail an assertion on the way.\<close>

fun find_if_e :: "('a \<Rightarrow> error + bool) \<Rightarrow> 'a list \<Rightarrow> error + nat" where
  "find_if_e P [] = Inr 0"
| "find_if_e P (x # xs) =
     (case P x of
        Inl e \<Rightarrow> Inl e
      | Inr True \<Rightarrow> Inr 0
      | Inr False \<Rightarrow> (case find_if_e P xs of Inl e \<Rightarrow> Inl e | Inr k \<Rightarrow> Inr (Suc k)))"

text \<open>\<open>vector::erase(it)\<close> and \<open>vector::insert(it, x)\<close> at an index.\<close>

definition erase :: "'a list \<Rightarrow> nat \<Rightarrow> 'a list" where
  "erase xs i = take i xs @ drop (Suc i) xs"

definition insert_at :: "'a list \<Rightarrow> nat \<Rightarrow> 'a \<Rightarrow> 'a list" where
  "insert_at xs i x = take i xs @ x # drop i xs"

text \<open>\<open>std::distance(a, b)\<close> on pointers, and the conversion of its result to \<open>size_t\<close>.\<close>

definition distance :: "pointer_t \<Rightarrow> pointer_t \<Rightarrow> int" where
  "distance a b = int b - int a"

definition to_size_t :: "int \<Rightarrow> nat" where
  "to_size_t z = nat (z mod 2 ^ 64)"

section \<open>The pool\<close>

text \<open>The constructor: no segment, \<open>m_last\<close> at the beginning of the memory.\<close>

definition new_pool :: "span_t \<Rightarrow> buffer_pool" where
  "new_pool memory = \<lparr>m_memory = memory, m_chunks = [], m_last = span_begin memory\<rparr>"

text \<open>\<open>size()\<close>, the size of the managed memory.\<close>

definition size_pool :: "buffer_pool \<Rightarrow> nat" where
  "size_pool p = sp_size (m_memory p)"

text \<open>
  The private \<open>size(const mgm_chunk& c)\<close>: the first entry whose \<open>m_first\<close> is that
  of \<open>c\<close> is looked up, and the distance from \<open>c.m_first\<close> to the next entry's
  \<open>m_first\<close>, or to \<open>m_last\<close> after the last entry, is returned as a \<open>size_t\<close>.
\<close>

definition size_chunk :: "buffer_pool \<Rightarrow> mgm_chunk \<Rightarrow> error + nat" where
  "size_chunk p c =
     (let it = find_if (\<lambda>e. m_first e = m_first c) (m_chunks p) in
      if it = length (m_chunks p) then Inl assert_failed
      else
        let n = Suc it in
        Inr (to_size_t
          (if n \<noteq> length (m_chunks p) then distance (m_first c) (m_first (m_chunks p ! n))
           else distance (m_first c) (m_last p))))"

text \<open>\<open>find_chunk\<close>: the first entry that starts where the handle's span starts.\<close>

definition find_chunk :: "buffer_pool \<Rightarrow> Chunk \<Rightarrow> nat" where
  "find_chunk p chunk = find_if (\<lambda>c. m_first c = sp_data (m_chunk chunk)) (m_chunks p)"

text \<open>
  The predicate of the search in \<open>request\<close>: \<open>!c.m_inUse && this->size(c) >= size\<close>
  (\<open>size\<close> is not called on an entry in use).
\<close>

definition fits :: "buffer_pool \<Rightarrow> nat \<Rightarrow> mgm_chunk \<Rightarrow> error + bool" where
  "fits p sz c =
     (if m_inUse c then Inr False
      else case size_chunk p c of Inl e \<Rightarrow> Inl e | Inr s \<Rightarrow> Inr (sz \<le> s))"

text \<open>
  \<open>request(size)\<close>. The result is the returned handle or the error, together with the
  pool as the call leaves it (an exception leaves the pool as it is at the \<open>throw\<close>).
  The search runs over the reversed vector; \<open>rit\<close> counts the entries passed from the
  back, and \<open>--rit.base()\<close> is the index \<open>length - 1 - rit\<close>.
\<close>

definition request :: "buffer_pool \<Rightarrow> nat \<Rightarrow> (error + Chunk) \<times> buffer_pool" where
  "request p sz =
     (if \<not> sz < sp_size (m_memory p) then (Inl assert_failed, p)
      else
        case find_if_e (fits p sz) (rev (m_chunks p)) of
          Inl e \<Rightarrow> (Inl e, p)
        | Inr rit \<Rightarrow>
            if rit = length (m_chunks p) then
              (let rest = distance (m_last p) (span_end (m_memory p)) in
               if \<not> 0 \<le> rest then (Inl assert_failed, p)
               else if to_size_t rest < sz then (Inl overflow_error, p)
               else
                 let begin = m_last p in
                 (Inr \<lparr>m_chunk = span_of begin sz, m_pool = this_pool\<rparr>,
                  p\<lparr>m_chunks := m_chunks p @ [\<lparr>m_first = begin, m_inUse = True\<rparr>],
                    m_last := begin + sz\<rparr>))
            else
              (let it = length (m_chunks p) - 1 - rit;
                   begin = m_first (m_chunks p ! it);
                   p1 = p\<lparr>m_chunks := (m_chunks p)[it := (m_chunks p ! it)\<lparr>m_inUse := True\<rparr>]\<rparr>
               in
               case size_chunk p1 (m_chunks p1 ! it) of
                 Inl e \<Rightarrow> (Inl e, p1)
               | Inr s \<Rightarrow>
                   (Inr \<lparr>m_chunk = span_of begin sz, m_pool = this_pool\<rparr>,
                    if s \<noteq> sz
                    then p1\<lparr>m_chunks :=
                           insert_at (m_chunks p1) (Suc it) \<lparr>m_first = begin + sz, m_inUse = False\<rparr>\<rparr>
                    else p1)))"

text \<open>
  \<open>used_mem()\<close>: \<open>std::accumulate\<close> from \<open>size_t(0)\<close> with
  \<open>a + (b.m_inUse ? this->size(b) : 0)\<close>; \<open>free_mem()\<close> is \<open>size() - used_mem()\<close>.
\<close>

fun accumulate_used :: "buffer_pool \<Rightarrow> mgm_chunk list \<Rightarrow> nat \<Rightarrow> error + nat" where
  "accumulate_used p [] a = Inr a"
| "accumulate_used p (b # bs) a =
     (if m_inUse b
      then (case size_chunk p b of
              Inl e \<Rightarrow> Inl e
            | Inr s \<Rightarrow> accumulate_used p bs ((a + s) mod 2 ^ 64))
      else accumulate_used p bs a)"

definition used_mem :: "buffer_pool \<Rightarrow> error + nat" where
  "used_mem p = accumulate_used p (m_chunks p) 0"

definition free_mem :: "buffer_pool \<Rightarrow> error + nat" where
  "free_mem p =
     (case used_mem p of
        Inl e \<Rightarrow> Inl e
      | Inr u \<Rightarrow> Inr (to_size_t (int (size_pool p) - int u)))"


definition used_chunks :: "buffer_pool \<Rightarrow> nat" where
  "used_chunks p = length (filter (\<lambda>c. m_inUse c) (m_chunks p))"

definition unused_chunks :: "buffer_pool \<Rightarrow> nat" where
  "unused_chunks p = length (filter (\<lambda>c. \<not> m_inUse c) (m_chunks p))"

text \<open>
  The private \<open>release(const Chunk&)\<close>. \<open>prev(m_chunks.erase(it))\<close> is the index
  \<open>it - 1\<close> of the vector after the erasure.
\<close>

definition release :: "buffer_pool \<Rightarrow> Chunk \<Rightarrow> error + buffer_pool" where
  "release p chunk =
     (let it = find_chunk p chunk in
      if it = length (m_chunks p) then Inl assert_failed
      else
        let cs1 = (m_chunks p)[it := (m_chunks p ! it)\<lparr>m_inUse := False\<rparr>];
            merged = (it \<noteq> 0 \<and> \<not> m_inUse (cs1 ! (it - 1)));
            cs2 = (if merged then erase cs1 it else cs1);
            it2 = (if merged then it - 1 else it);
            nextIt = Suc it2
        in
        if nextIt = length cs2
        then Inr (p\<lparr>m_chunks := erase cs2 it2, m_last := m_first (cs2 ! it2)\<rparr>)
        else if \<not> m_inUse (cs2 ! nextIt) then Inr (p\<lparr>m_chunks := erase cs2 nextIt\<rparr>)
        else Inr (p\<lparr>m_chunks := cs2\<rparr>))"

text \<open>The private \<open>resize(const Chunk&)\<close>, called with the handle already shortened.\<close>

definition resize :: "buffer_pool \<Rightarrow> Chunk \<Rightarrow> error + buffer_pool" where
  "resize p chunk =
     (let it = find_chunk p chunk in
      if it = length (m_chunks p) then Inl assert_failed
      else
        let nextIt = Suc it in
        if nextIt \<noteq> length (m_chunks p) then
          (if m_inUse (m_chunks p ! nextIt)
           then Inr (p\<lparr>m_chunks :=
                  insert_at (m_chunks p) nextIt
                    \<lparr>m_first = span_end (m_chunk chunk), m_inUse = False\<rparr>\<rparr>)
           else Inr (p\<lparr>m_chunks :=
                  (m_chunks p)[nextIt := (m_chunks p ! nextIt)\<lparr>m_first := span_end (m_chunk chunk)\<rparr>]\<rparr>))
        else Inr (p\<lparr>m_last := span_end (m_chunk chunk)\<rparr>))"

subsection \<open>The request of the older header\<close>

text \<open>
  The repository also holds an older header of the same class. Its \<open>size(c)\<close> returns
  0 for an entry it does not find, and its \<open>request\<close> appends the new entry and
  moves \<open>m_last\<close> first and only then compares the distance from the new entry to the
  end of the memory with the size, throwing \<open>std::runtime_error\<close>; on reuse it inserts
  the free entry for the remainder without a test.
\<close>

definition size_chunk_old :: "buffer_pool \<Rightarrow> mgm_chunk \<Rightarrow> nat" where
  "size_chunk_old p c =
     (let it = find_if (\<lambda>e. m_first e = m_first c) (m_chunks p) in
      if it \<noteq> length (m_chunks p) then
        (let n = Suc it in
         to_size_t
           (if n \<noteq> length (m_chunks p) then distance (m_first c) (m_first (m_chunks p ! n))
            else distance (m_first c) (m_last p)))
      else 0)"

definition request_old :: "buffer_pool \<Rightarrow> nat \<Rightarrow> (error + Chunk) \<times> buffer_pool" where
  "request_old p sz =
     (if \<not> sz < sp_size (m_memory p) then (Inl assert_failed, p)
      else
        let rit = find_if (\<lambda>c. \<not> m_inUse c \<and> sz \<le> size_chunk_old p c) (rev (m_chunks p)) in
        if rit = length (m_chunks p) then
          (let begin = m_last p;
               p1 = p\<lparr>m_chunks := m_chunks p @ [\<lparr>m_first = begin, m_inUse = True\<rparr>],
                      m_last := begin + sz\<rparr>
           in
           if to_size_t (distance (m_first (last (m_chunks p1))) (span_end (m_memory p1))) < sz
           then (Inl runtime_error, p1)
           else (Inr \<lparr>m_chunk = span_of begin sz, m_pool = this_pool\<rparr>, p1))
        else
          (let it = length (m_chunks p) - 1 - rit;
               begin = m_first (m_chunks p ! it);
               cs1 = (m_chunks p)[it := (m_chunks p ! it)\<lparr>m_inUse := True\<rparr>]
           in
           (Inr \<lparr>m_chunk = span_of begin sz, m_pool = this_pool\<rparr>,
            p\<lparr>m_chunks := insert_at cs1 (Suc it) \<lparr>m_first = begin + sz, m_inUse = False\<rparr>\<rparr>)))"

section \<open>The chunk handle\<close>

text \<open>\<open>Chunk()\<close>: the default handle, with an empty span and no pool.\<close>

definition Chunk_default :: Chunk where
  "Chunk_default = \<lparr>m_chunk = span_default, m_pool = nullptr\<rparr>"

text \<open>
  The move constructor swaps the members of \<open>orig\<close> with those of the handle under
  construction, which are default-initialised; the move assignment swaps them with
  those of the assigned handle. Both return the destination and the source afterwards.
\<close>

definition Chunk_move_assign :: "Chunk \<Rightarrow> Chunk \<Rightarrow> Chunk \<times> Chunk" where
  "Chunk_move_assign this orig =
     (this\<lparr>m_chunk := m_chunk orig, m_pool := m_pool orig\<rparr>,
      orig\<lparr>m_chunk := m_chunk this, m_pool := m_pool this\<rparr>)"

definition Chunk_move_ctor :: "Chunk \<Rightarrow> Chunk \<times> Chunk" where
  "Chunk_move_ctor orig = Chunk_move_assign Chunk_default orig"

text \<open>\<open>Chunk::valid()\<close>.\<close>

definition valid :: "Chunk \<Rightarrow> bool" where
  "valid c = (m_pool c \<noteq> nullptr)"

text \<open>
  \<open>Chunk::release()\<close>: the pool's \<open>release\<close> when \<open>m_pool\<close> is not null, then the span
  is reset. The destructor \<open>~Chunk()\<close> is this call.
\<close>

definition Chunk_release :: "Chunk \<Rightarrow> buffer_pool \<Rightarrow> error + Chunk \<times> buffer_pool" where
  "Chunk_release c p =
     (case m_pool c of
        this_pool \<Rightarrow>
          (case release p c of
             Inl e \<Rightarrow> Inl e
           | Inr p' \<Rightarrow> Inr (c\<lparr>m_chunk := span_default\<rparr>, p'))
      | nullptr \<Rightarrow> Inr (c\<lparr>m_chunk := span_default\<rparr>, p))"

text \<open>
  \<open>Chunk::shrink(newSize)\<close>: the assertion, then the span is shortened and the pool's
  \<open>resize\<close> is called through \<open>m_pool\<close>.
\<close>

definition shrink :: "Chunk \<Rightarrow> nat \<Rightarrow> buffer_pool \<Rightarrow> error + Chunk \<times> buffer_pool" where
  "shrink c newSize p =
     (if \<not> newSize \<le> sp_size (m_chunk c) then Inl assert_failed
      else if newSize \<noteq> sp_size (m_chunk c) then
        (let c' = c\<lparr>m_chunk := span_of (span_begin (m_chunk c)) newSize\<rparr> in
         case m_pool c' of
           nullptr \<Rightarrow> Inl null_dereference
         | this_pool \<Rightarrow>
             (case resize p c' of Inl e \<Rightarrow> Inl e | Inr p' \<Rightarrow> Inr (c', p')))
      else Inr (c, p))"

section \<open>Client programs\<close>

text \<open>
  A client holds the pool and the handles it was given, in the order of the requests,
  and calls \<open>request\<close>, the \<open>release\<close> of a handle and the \<open>shrink\<close> of a handle.
  A run stops at the first error.
\<close>

datatype call = Request nat | Release nat | Shrink nat nat

type_synonym client = "buffer_pool \<times> Chunk list"

fun step :: "client \<Rightarrow> call \<Rightarrow> error + client" where
  "step (p, hs) (Request sz) =
     (case request p sz of
        (Inl e, _) \<Rightarrow> Inl e
      | (Inr c, p') \<Rightarrow> Inr (p', hs @ [c]))"
| "step (p, hs) (Release i) =
     (if i < length hs
      then (case Chunk_release (hs ! i) p of
              Inl e \<Rightarrow> Inl e
            | Inr (c', p') \<Rightarrow> Inr (p', hs[i := c']))
      else Inl no_such_handle)"
| "step (p, hs) (Shrink i n) =
     (if i < length hs
      then (case shrink (hs ! i) n p of
              Inl e \<Rightarrow> Inl e
            | Inr (c', p') \<Rightarrow> Inr (p', hs[i := c']))
      else Inl no_such_handle)"

fun run :: "client \<Rightarrow> call list \<Rightarrow> error + client" where
  "run s [] = Inr s"
| "run s (c # cs) = (case step s c of Inl e \<Rightarrow> Inl e | Inr s' \<Rightarrow> run s' cs)"

text \<open>A fresh pool over a span of \<open>n\<close> elements at the address \<open>b\<close>, and no handle yet.\<close>

definition fresh :: "pointer_t \<Rightarrow> nat \<Rightarrow> client" where
  "fresh b n = (new_pool (span_of b n), [])"

text \<open>All the orders in which the elements of a list can be taken.\<close>

fun insert_everywhere :: "'a \<Rightarrow> 'a list \<Rightarrow> 'a list list" where
  "insert_everywhere x [] = [[x]]"
| "insert_everywhere x (y # ys) = (x # y # ys) # map ((#) y) (insert_everywhere x ys)"

fun orders :: "'a list \<Rightarrow> 'a list list" where
  "orders [] = [[]]"
| "orders (x # xs) = concat (map (insert_everywhere x) (orders xs))"

text \<open>The sizes of the free segments, as \<open>size(c)\<close> computes them.\<close>

definition free_sizes :: "buffer_pool \<Rightarrow> (error + nat) list" where
  "free_sizes p = map (size_chunk p) (filter (\<lambda>c. \<not> m_inUse c) (m_chunks p))"

section \<open>The invariants of the segment list\<close>

text \<open>
  The boundary that follows a list of entries: the start of its first entry, or the
  given \<open>m_last\<close> when the list is empty.
\<close>

definition next_start :: "mgm_chunk list \<Rightarrow> pointer_t \<Rightarrow> pointer_t" where
  "next_start ys l = (case ys of [] \<Rightarrow> l | y # _ \<Rightarrow> m_first y)"

text \<open>The derived end of the segment at index \<open>i\<close>.\<close>

definition seg_end :: "buffer_pool \<Rightarrow> nat \<Rightarrow> pointer_t" where
  "seg_end p i = (if Suc i < length (m_chunks p) then m_first (m_chunks p ! Suc i) else m_last p)"

text \<open>
  The invariants of the data model: the starts of the segments, followed by \<open>m_last\<close>,
  increase strictly; they lie in the managed memory, whose addresses fit a \<open>size_t\<close>;
  no two adjacent segments are both free; the last segment is in use.
\<close>

definition pool_inv :: "buffer_pool \<Rightarrow> bool" where
  "pool_inv p \<longleftrightarrow>
     sorted_wrt (<) (map m_first (m_chunks p) @ [m_last p]) \<and>
     span_begin (m_memory p) \<le> hd (map m_first (m_chunks p) @ [m_last p]) \<and>
     m_last p \<le> span_end (m_memory p) \<and>
     span_end (m_memory p) < 2 ^ 64 \<and>
     successively (\<lambda>a b. m_inUse a \<or> m_inUse b) (m_chunks p) \<and>
     (m_chunks p = [] \<or> m_inUse (last (m_chunks p)))"

text \<open>
  A live handle: it refers to the pool, \<open>find_chunk\<close> finds a segment for it, that
  segment is in use, and the segment ends where the handle's span ends.
\<close>

definition live :: "buffer_pool \<Rightarrow> Chunk \<Rightarrow> bool" where
  "live p h \<longleftrightarrow>
     m_pool h = this_pool \<and> find_chunk p h < length (m_chunks p) \<and>
     m_inUse (m_chunks p ! find_chunk p h) \<and>
     seg_end p (find_chunk p h) = span_end (m_chunk h)"

text \<open>
  An address that the pool holds as free: in the unclaimed tail from \<open>m_last\<close> to the
  end of the memory, or inside a free segment.
\<close>

definition free_addr :: "buffer_pool \<Rightarrow> pointer_t \<Rightarrow> bool" where
  "free_addr p a \<longleftrightarrow>
     (m_last p \<le> a \<and> a < span_end (m_memory p)) \<or>
     (\<exists>i\<in>{..<length (m_chunks p)}.
        \<not> m_inUse (m_chunks p ! i) \<and> m_first (m_chunks p ! i) \<le> a \<and> a < seg_end p i)"

text \<open>The sum of the derived sizes of the segments in use, for a list that ends at \<open>l\<close>.\<close>

fun used_sum :: "mgm_chunk list \<Rightarrow> pointer_t \<Rightarrow> nat" where
  "used_sum [] l = 0"
| "used_sum (c # cs) l = (if m_inUse c then next_start cs l - m_first c else 0) + used_sum cs l"

text \<open>
  The segments in use as intervals: the start of each entry in use with its derived
  end, for a list that ends at \<open>l\<close>.
\<close>

fun used_intervals :: "mgm_chunk list \<Rightarrow> pointer_t \<Rightarrow> (pointer_t \<times> pointer_t) list" where
  "used_intervals [] l = []"
| "used_intervals (c # cs) l =
     (if m_inUse c then [(m_first c, next_start cs l)] else []) @ used_intervals cs l"

abbreviation intervals :: "buffer_pool \<Rightarrow> (pointer_t \<times> pointer_t) set" where
  "intervals p \<equiv> set (used_intervals (m_chunks p) (m_last p))"

abbreviation key :: "Chunk \<Rightarrow> pointer_t \<times> pointer_t" where
  "key h \<equiv> (sp_data (m_chunk h), span_end (m_chunk h))"

section \<open>Clients that keep to the preconditions\<close>

text \<open>
  A handle that the pool has given out either has been released, and then its span
  is the empty one, or is live and views at least one element.
\<close>

definition handle_ok :: "buffer_pool \<Rightarrow> Chunk \<Rightarrow> bool" where
  "handle_ok p h \<longleftrightarrow>
     m_pool h = this_pool \<and>
     (m_chunk h = span_default \<or> (0 < sp_size (m_chunk h) \<and> live p h))"

text \<open>
  The invariant of a client: the pool satisfies its invariants, the memory does not
  start at \<open>nullptr\<close>, every handle is as above, and no two handles that are not
  released start at the same address.
\<close>

definition client_inv :: "client \<Rightarrow> bool" where
  "client_inv s \<longleftrightarrow>
     pool_inv (fst s) \<and> 0 < span_begin (m_memory (fst s)) \<and>
     (\<forall>i<length (snd s). handle_ok (fst s) (snd s ! i)) \<and>
     (\<forall>i<length (snd s). \<forall>j<length (snd s).
        i \<noteq> j \<and> m_chunk (snd s ! i) \<noteq> span_default \<and> m_chunk (snd s ! j) \<noteq> span_default
        \<longrightarrow> sp_data (m_chunk (snd s ! i)) \<noteq> sp_data (m_chunk (snd s ! j)))"

text \<open>
  The preconditions of a call, with sizes of at least one element: a request of less
  than the size of the memory; the release of a handle not yet released; the
  shrinking of such a handle to a size not above its own.
\<close>

fun pre :: "client \<Rightarrow> call \<Rightarrow> bool" where
  "pre (p, hs) (Request sz) \<longleftrightarrow> 0 < sz \<and> sz < size_pool p"
| "pre (p, hs) (Release i) \<longleftrightarrow> i < length hs \<and> m_chunk (hs ! i) \<noteq> span_default"
| "pre (p, hs) (Shrink i n) \<longleftrightarrow>
     i < length hs \<and> m_chunk (hs ! i) \<noteq> span_default \<and> 0 < n \<and> n \<le> sp_size (m_chunk (hs ! i))"

fun admissible :: "client \<Rightarrow> call list \<Rightarrow> bool" where
  "admissible s [] = True"
| "admissible s (c # cs) =
     (pre s c \<and> (case step s c of Inl e \<Rightarrow> True | Inr s' \<Rightarrow> admissible s' cs))"

section \<open>Searching and editing the vector\<close>

lemmas pool_defs =
  new_pool_def request_def span_of_def span_begin_def span_end_def distance_def to_size_t_def
  fits_def size_chunk_def insert_at_def erase_def release_def resize_def find_chunk_def
  shrink_def Chunk_release_def span_default_def fresh_def Let_def

lemma find_if_le: "find_if P xs \<le> length xs"
  by (induction xs) auto

lemma find_if_less_iff: "find_if P xs < length xs \<longleftrightarrow> (\<exists>x\<in>set xs. P x)"
  by (induction xs) auto

lemma find_if_nth: "find_if P xs < length xs \<Longrightarrow> P (xs ! find_if P xs)"
  by (induction xs) auto

lemma find_if_hit: "\<forall>x\<in>set xs. \<not> P x \<Longrightarrow> P c \<Longrightarrow> find_if P (xs @ c # ys) = length xs"
  by (induction xs) auto

lemma find_if_miss: "\<forall>x\<in>set xs. \<not> P x \<Longrightarrow> find_if P xs = length xs"
  by (induction xs) auto

lemma find_if_e_pure:
  "\<forall>x\<in>set xs. P x = Inr (Q x) \<Longrightarrow> find_if_e P xs = Inr (find_if Q xs)"
  by (induction xs) auto

lemma size_chunk_mem:
  assumes "c \<in> set (m_chunks p)"
  shows "\<exists>s. size_chunk p c = Inr s"
proof -
  have "find_if (\<lambda>e. m_first e = m_first c) (m_chunks p) < length (m_chunks p)"
    using assms by (auto simp: find_if_less_iff)
  then show ?thesis by (simp add: size_chunk_def Let_def)
qed

lemma find_if_e_hit:
  "\<forall>x\<in>set xs. P x = Inr False \<Longrightarrow> P c = Inr True \<Longrightarrow> find_if_e P (xs @ c # ys) = Inr (length xs)"
  by (induction xs) auto

lemma find_if_e_miss: "\<forall>x\<in>set xs. P x = Inr False \<Longrightarrow> find_if_e P xs = Inr (length xs)"
  by (induction xs) auto

lemma size_chunk_at:
  assumes "m_chunks p = xs @ c # ys" and "\<forall>x\<in>set xs. m_first x \<noteq> m_first c"
  shows "size_chunk p c = Inr (to_size_t (distance (m_first c) (next_start ys (m_last p))))"
proof -
  have "find_if (\<lambda>e. m_first e = m_first c) (m_chunks p) = length xs"
    using assms by (simp add: find_if_hit)
  then show ?thesis using assms(1)
    by (cases ys) (simp_all add: size_chunk_def next_start_def nth_append)
qed

lemma to_size_t_distance: "a \<le> b \<Longrightarrow> b < 2 ^ 64 \<Longrightarrow> to_size_t (distance a b) = b - a"
  by (simp add: to_size_t_def distance_def nat_diff_distrib' flip: of_nat_diff)

section \<open>The operations on a split segment list\<close>

lemma release_decomp:
  assumes cs: "m_chunks p = xs @ c # ys"
    and miss: "\<forall>x\<in>set xs. m_first x \<noteq> sp_data (m_chunk h)"
    and hit: "m_first c = sp_data (m_chunk h)"
  shows "release p h = Inr
     (if xs \<noteq> [] \<and> \<not> m_inUse (last xs) then
        (if ys = [] then p\<lparr>m_chunks := butlast xs, m_last := m_first (last xs)\<rparr>
         else if \<not> m_inUse (hd ys) then p\<lparr>m_chunks := xs @ tl ys\<rparr>
         else p\<lparr>m_chunks := xs @ ys\<rparr>)
      else
        (if ys = [] then p\<lparr>m_chunks := xs, m_last := m_first c\<rparr>
         else if \<not> m_inUse (hd ys) then p\<lparr>m_chunks := xs @ c\<lparr>m_inUse := False\<rparr> # tl ys\<rparr>
         else p\<lparr>m_chunks := xs @ c\<lparr>m_inUse := False\<rparr> # ys\<rparr>))"
proof -
  have it: "find_chunk p h = length xs"
    using assms by (simp add: find_chunk_def find_if_hit)
  show ?thesis
  proof (cases xs rule: rev_cases)
    case Nil
    then show ?thesis using it cs
      by (cases ys) (simp_all add: release_def Let_def erase_def)
  next
    case (snoc xs' x)
    then show ?thesis using it cs
      by (cases ys; cases "m_inUse x") (simp_all add: release_def Let_def erase_def nth_append list_update_append)
  qed
qed

lemma resize_decomp:
  assumes cs: "m_chunks p = xs @ c # ys"
    and miss: "\<forall>x\<in>set xs. m_first x \<noteq> sp_data (m_chunk h)"
    and hit: "m_first c = sp_data (m_chunk h)"
  shows "resize p h = Inr
     (case ys of
        [] \<Rightarrow> p\<lparr>m_last := span_end (m_chunk h)\<rparr>
      | y # ys' \<Rightarrow>
          if m_inUse y
          then p\<lparr>m_chunks := xs @ c # \<lparr>m_first = span_end (m_chunk h), m_inUse = False\<rparr> # ys\<rparr>
          else p\<lparr>m_chunks := xs @ c # y\<lparr>m_first := span_end (m_chunk h)\<rparr> # ys'\<rparr>)"
proof -
  have it: "find_chunk p h = length xs"
    using assms by (simp add: find_chunk_def find_if_hit)
  show ?thesis using it cs
    by (cases ys) (simp_all add: resize_def Let_def insert_at_def nth_append list_update_append)
qed

lemma request_append:
  assumes "sz < sp_size (m_memory p)"
    and "\<forall>c\<in>set (m_chunks p). fits p sz c = Inr False"
    and "m_last p \<le> span_end (m_memory p)"
  shows "request p sz =
     (if to_size_t (distance (m_last p) (span_end (m_memory p))) < sz then (Inl overflow_error, p)
      else (Inr \<lparr>m_chunk = span_of (m_last p) sz, m_pool = this_pool\<rparr>,
            p\<lparr>m_chunks := m_chunks p @ [\<lparr>m_first = m_last p, m_inUse = True\<rparr>],
              m_last := m_last p + sz\<rparr>))"
proof -
  have "find_if_e (fits p sz) (rev (m_chunks p)) = Inr (length (m_chunks p))"
    using assms(2) find_if_e_miss[of "rev (m_chunks p)" "fits p sz"] by simp
  moreover have "0 \<le> distance (m_last p) (span_end (m_memory p))"
    using assms(3) by (simp add: distance_def)
  ultimately show ?thesis using assms(1)
    by (simp add: request_def Let_def)
qed

lemma request_reuse:
  assumes sz: "sz < sp_size (m_memory p)"
    and cs: "m_chunks p = xs @ c # ys"
    and free: "\<not> m_inUse c"
    and s: "size_chunk p c = Inr s" "sz \<le> s"
    and later: "\<forall>y\<in>set ys. fits p sz y = Inr False"
    and miss: "\<forall>x\<in>set xs. m_first x \<noteq> m_first c"
  shows "request p sz =
     (Inr \<lparr>m_chunk = span_of (m_first c) sz, m_pool = this_pool\<rparr>,
      p\<lparr>m_chunks :=
          (if s \<noteq> sz
           then xs @ c\<lparr>m_inUse := True\<rparr> # \<lparr>m_first = m_first c + sz, m_inUse = False\<rparr> # ys
           else xs @ c\<lparr>m_inUse := True\<rparr> # ys)\<rparr>)"
proof -
  have "fits p sz c = Inr True"
    using free s by (simp add: fits_def)
  then have rit: "find_if_e (fits p sz) (rev (m_chunks p)) = Inr (length ys)"
    using later cs find_if_e_hit[of "rev ys" "fits p sz" c "rev xs"] by simp
  have it: "length (m_chunks p) - 1 - length ys = length xs"
    using cs by simp
  have upd: "(m_chunks p)[length xs := (m_chunks p ! length xs)\<lparr>m_inUse := True\<rparr>]
      = xs @ c\<lparr>m_inUse := True\<rparr> # ys"
    using cs by simp
  have s0: "size_chunk p c = Inr (to_size_t (distance (m_first c) (next_start ys (m_last p))))"
    using cs miss by (rule size_chunk_at)
  have s1: "size_chunk (p\<lparr>m_chunks := xs @ c\<lparr>m_inUse := True\<rparr> # ys\<rparr>) (c\<lparr>m_inUse := True\<rparr>)
      = Inr (to_size_t (distance (m_first c) (next_start ys (m_last p))))"
    using miss size_chunk_at[of "p\<lparr>m_chunks := xs @ c\<lparr>m_inUse := True\<rparr> # ys\<rparr>" xs "c\<lparr>m_inUse := True\<rparr>" ys]
    by simp
  have s2: "size_chunk (p\<lparr>m_chunks := xs @ c\<lparr>m_inUse := True\<rparr> # ys\<rparr>) (c\<lparr>m_inUse := True\<rparr>) = Inr s"
    using s0 s1 s(1) by simp
  have ne: "length ys \<noteq> length (m_chunks p)" using cs by simp
  show ?thesis
    using sz rit it upd s2 ne cs
    by (simp add: request_def Let_def insert_at_def)
qed

section \<open>Consequences of the invariants\<close>

lemma inv_split:
  assumes "pool_inv p" and "m_chunks p = xs @ c # ys"
  shows "\<forall>x\<in>set xs. m_first x < m_first c"
    and "\<forall>y\<in>set ys. m_first c < m_first y"
    and "m_first c < m_last p"
    and "m_first c < next_start ys (m_last p)"
    and "next_start ys (m_last p) \<le> m_last p"
proof -
  have srt: "sorted_wrt (<) (map m_first xs @ m_first c # map m_first ys @ [m_last p])"
    using assms by (simp add: pool_inv_def)
  show "\<forall>x\<in>set xs. m_first x < m_first c"
    using srt by (auto simp: sorted_wrt_append)
  show "\<forall>y\<in>set ys. m_first c < m_first y"
    using srt by (auto simp: sorted_wrt_append)
  show "m_first c < m_last p"
    using srt by (auto simp: sorted_wrt_append)
  show "m_first c < next_start ys (m_last p)"
    using srt by (cases ys) (auto simp: sorted_wrt_append next_start_def)
  show "next_start ys (m_last p) \<le> m_last p"
    using srt by (cases ys) (auto simp: sorted_wrt_append next_start_def)
qed

lemma inv_free_neighbours:
  assumes "pool_inv p" and "m_chunks p = xs @ c # ys" and "\<not> m_inUse c"
  shows "ys \<noteq> []" and "m_inUse (hd ys)" and "xs = [] \<or> m_inUse (last xs)"
proof -
  have adj: "successively (\<lambda>a b. m_inUse a \<or> m_inUse b) (xs @ c # ys)"
    and lst: "m_inUse (last (xs @ c # ys))"
    using assms by (auto simp: pool_inv_def)
  show "ys \<noteq> []" using lst assms(3) by auto
  then show "m_inUse (hd ys)"
    using adj assms(3) by (auto simp: successively_append_iff successively_Cons)
  show "xs = [] \<or> m_inUse (last xs)"
    using adj assms(3) by (auto simp: successively_append_iff)
qed

lemma mark_free_id: "\<not> m_inUse c \<Longrightarrow> c\<lparr>m_inUse := False\<rparr> = c"
  by (cases c) simp

lemma fits_total:
  assumes "c \<in> set (m_chunks p)"
  shows "fits p sz c = Inr False \<or> (\<not> m_inUse c \<and> (\<exists>s. size_chunk p c = Inr s \<and> sz \<le> s))"
  using size_chunk_mem[OF assms] by (auto simp: fits_def)

lemma seg_end_at: "m_chunks p = xs @ c # ys \<Longrightarrow> seg_end p (length xs) = next_start ys (m_last p)"
  by (cases ys) (simp_all add: seg_end_def next_start_def nth_append)

lemma live_split:
  assumes "pool_inv p" and "live p h"
  obtains xs c ys where "m_chunks p = xs @ c # ys" and "find_chunk p h = length xs"
    and "m_first c = sp_data (m_chunk h)" and "m_inUse c"
    and "\<forall>x\<in>set xs. m_first x \<noteq> sp_data (m_chunk h)"
    and "next_start ys (m_last p) = span_end (m_chunk h)"
proof -
  let ?i = "find_chunk p h"
  let ?cs = "m_chunks p"
  have i: "?i < length ?cs" and use: "m_inUse (?cs ! ?i)" and e: "seg_end p ?i = span_end (m_chunk h)"
    using assms(2) by (auto simp: live_def)
  have cs: "?cs = take ?i ?cs @ ?cs ! ?i # drop (Suc ?i) ?cs"
    using i by (rule id_take_nth_drop)
  have len: "length (take ?i ?cs) = ?i" using i by simp
  have hit: "m_first (?cs ! ?i) = sp_data (m_chunk h)"
    using i find_if_nth[of "\<lambda>c. m_first c = sp_data (m_chunk h)" ?cs] by (simp add: find_chunk_def)
  have "\<forall>x\<in>set (take ?i ?cs). m_first x < m_first (?cs ! ?i)"
    using inv_split(1)[OF assms(1) cs] .
  then have miss: "\<forall>x\<in>set (take ?i ?cs). m_first x \<noteq> sp_data (m_chunk h)"
    using hit by auto
  have "next_start (drop (Suc ?i) ?cs) (m_last p) = span_end (m_chunk h)"
    using seg_end_at[OF cs] len e by simp
  then show ?thesis using that[OF cs len[symmetric] hit use miss] by simp
qed

section \<open>The used memory of an ordered segment list\<close>

lemma next_start_le:
  "sorted_wrt (<) (map m_first (c # cs)) \<Longrightarrow> \<forall>x\<in>set (c # cs). m_first x \<le> l \<Longrightarrow>
   m_first c \<le> next_start cs l \<and> next_start cs l \<le> l"
  by (cases cs) (auto simp: next_start_def)

lemma accumulate_used_eq:
  assumes "m_chunks p = as @ bs"
    and "sorted_wrt (<) (map m_first (m_chunks p))"
    and "\<forall>c\<in>set (m_chunks p). m_first c \<le> m_last p"
    and "m_last p < 2 ^ 64"
    and "a + (m_last p - next_start bs (m_last p)) < 2 ^ 64"
  shows "accumulate_used p bs a = Inr (a + used_sum bs (m_last p))"
  using assms
proof (induction bs arbitrary: as a)
  case Nil
  then show ?case by simp
next
  case (Cons b bs)
  let ?l = "m_last p"
  let ?n = "next_start bs ?l"
  have srt: "sorted_wrt (<) (map m_first as @ map m_first (b # bs))"
    using Cons.prems(1,2) by simp
  then have miss: "\<forall>x\<in>set as. m_first x \<noteq> m_first b"
    by (auto simp: sorted_wrt_append)
  have "sorted_wrt (<) (map m_first (b # bs))" "\<forall>x\<in>set (b # bs). m_first x \<le> ?l"
    using srt Cons.prems(1,3) by (auto simp: sorted_wrt_append)
  then have bnd: "m_first b \<le> ?n" "?n \<le> ?l"
    using next_start_le[of b bs ?l] by auto
  have sz: "size_chunk p b = Inr (?n - m_first b)"
    using size_chunk_at[OF Cons.prems(1) miss] bnd Cons.prems(4)
    by (simp add: to_size_t_distance)
  have room: "a + (?l - m_first b) < 2 ^ 64"
    using Cons.prems(5) by (simp add: next_start_def)
  have cs': "m_chunks p = (as @ [b]) @ bs" using Cons.prems(1) by simp
  show ?case
  proof (cases "m_inUse b")
    case True
    have fit: "(a + (?n - m_first b)) mod 2 ^ 64 = a + (?n - m_first b)"
      using room bnd by simp
    have "a + (?n - m_first b) + (?l - ?n) < 2 ^ 64"
      using room bnd by simp
    then have "accumulate_used p bs (a + (?n - m_first b))
        = Inr (a + (?n - m_first b) + used_sum bs ?l)"
      using Cons.IH[OF cs' Cons.prems(2,3,4)] by simp
    then show ?thesis using True sz fit by simp
  next
    case False
    have "a + (?l - ?n) < 2 ^ 64"
      using room bnd by simp
    then have "accumulate_used p bs a = Inr (a + used_sum bs ?l)"
      using Cons.IH[OF cs' Cons.prems(2,3,4)] by simp
    then show ?thesis using False by simp
  qed
qed

lemma used_mem_eq:
  assumes "sorted_wrt (<) (map m_first (m_chunks p))"
    and "\<forall>c\<in>set (m_chunks p). m_first c \<le> m_last p"
    and "m_last p < 2 ^ 64"
  shows "used_mem p = Inr (used_sum (m_chunks p) (m_last p))"
proof -
  have "0 + (m_last p - next_start (m_chunks p) (m_last p)) < 2 ^ 64"
    using assms(3) by simp
  then show ?thesis
    using accumulate_used_eq[of p "[]" "m_chunks p" 0] assms
    by (simp add: used_mem_def)
qed

lemma used_sum_le:
  "sorted_wrt (<) (map m_first cs) \<Longrightarrow> \<forall>c\<in>set cs. m_first c \<le> l \<Longrightarrow>
   used_sum cs l + next_start cs l \<le> l"
proof (induction cs)
  case Nil
  then show ?case by (simp add: next_start_def)
next
  case (Cons c cs)
  have "m_first c \<le> next_start cs l" "next_start cs l \<le> l"
    using next_start_le[of c cs l] Cons.prems by auto
  moreover have "used_sum cs l + next_start cs l \<le> l"
    using Cons by simp
  ultimately show ?case by (simp add: next_start_def)
qed

lemma used_sum_last:
  "m_inUse c \<Longrightarrow> m_first c \<le> l' \<Longrightarrow> l' \<le> l \<Longrightarrow>
   used_sum (xs @ [c]) l = used_sum (xs @ [c]) l' + (l - l')"
proof (induction xs)
  case Nil
  then show ?case by (simp add: next_start_def)
next
  case (Cons x xs)
  have eq: "next_start (xs @ [c]) l = next_start (xs @ [c]) l'"
    by (cases xs) (simp_all add: next_start_def)
  have IH: "used_sum (xs @ [c]) l = used_sum (xs @ [c]) l' + (l - l')"
    using Cons by simp
  show ?case by (simp add: eq IH)
qed

lemma to_size_t_diff: "u \<le> n \<Longrightarrow> n < 2 ^ 64 \<Longrightarrow> to_size_t (int n - int u) = n - u"
  using to_size_t_distance[of u n] by (simp add: distance_def)

lemma free_mem_eq:
  assumes "sorted_wrt (<) (map m_first (m_chunks p))"
    and "\<forall>c\<in>set (m_chunks p). m_first c \<le> m_last p"
    and "span_begin (m_memory p) \<le> next_start (m_chunks p) (m_last p)"
    and "m_last p \<le> span_end (m_memory p)"
    and "span_end (m_memory p) < 2 ^ 64"
  shows "free_mem p = Inr (size_pool p - used_sum (m_chunks p) (m_last p))"
    and "used_sum (m_chunks p) (m_last p) \<le> size_pool p"
proof -
  have u: "used_mem p = Inr (used_sum (m_chunks p) (m_last p))"
    using assms by (intro used_mem_eq) auto
  have "used_sum (m_chunks p) (m_last p) + next_start (m_chunks p) (m_last p) \<le> m_last p"
    using assms(1,2) by (rule used_sum_le)
  then show le: "used_sum (m_chunks p) (m_last p) \<le> size_pool p"
    using assms(3,4) by (simp add: size_pool_def span_end_def span_begin_def)
  have "size_pool p < 2 ^ 64"
    using assms(5) by (simp add: size_pool_def span_end_def)
  then show "free_mem p = Inr (size_pool p - used_sum (m_chunks p) (m_last p))"
    using u le by (simp add: free_mem_def to_size_t_diff)
qed

lemma inv_free_mem:
  assumes "pool_inv p"
  shows "free_mem p = Inr (size_pool p - used_sum (m_chunks p) (m_last p))"
    and "used_sum (m_chunks p) (m_last p) \<le> size_pool p"
proof -
  have srt: "sorted_wrt (<) (map m_first (m_chunks p) @ [m_last p])"
    and b: "span_begin (m_memory p) \<le> hd (map m_first (m_chunks p) @ [m_last p])"
    and l: "m_last p \<le> span_end (m_memory p)" "span_end (m_memory p) < 2 ^ 64"
    using assms by (auto simp: pool_inv_def)
  have 1: "sorted_wrt (<) (map m_first (m_chunks p))"
    and 2: "\<forall>c\<in>set (m_chunks p). m_first c \<le> m_last p"
    using srt by (auto simp: sorted_wrt_append less_imp_le)
  have 3: "span_begin (m_memory p) \<le> next_start (m_chunks p) (m_last p)"
    using b by (cases "m_chunks p") (simp_all add: next_start_def)
  show "free_mem p = Inr (size_pool p - used_sum (m_chunks p) (m_last p))"
    using free_mem_eq(1)[OF 1 2 3 l] .
  show "used_sum (m_chunks p) (m_last p) \<le> size_pool p"
    using free_mem_eq(2)[OF 1 2 3 l] .
qed

section \<open>The segments in use as intervals\<close>

lemma next_start_append: "next_start (xs @ ys) l = next_start xs (next_start ys l)"
  by (cases xs) (simp_all add: next_start_def)

lemma used_intervals_append:
  "used_intervals (xs @ ys) l = used_intervals xs (next_start ys l) @ used_intervals ys l"
  by (induction xs) (simp_all add: next_start_append)

lemma used_intervals_fst: "(d, e) \<in> set (used_intervals cs l) \<Longrightarrow> d \<in> m_first ` set cs"
  by (induction cs) (auto split: if_splits)

lemma used_intervals_mem:
  "(d, e) \<in> set (used_intervals cs l) \<Longrightarrow>
   \<exists>xs c ys. cs = xs @ c # ys \<and> m_inUse c \<and> m_first c = d \<and> next_start ys l = e"
proof (induction cs)
  case Nil
  then show ?case by simp
next
  case (Cons a cs)
  show ?case
  proof (cases "m_inUse a \<and> (d, e) = (m_first a, next_start cs l)")
    case True
    then have "a # cs = [] @ a # cs \<and> m_inUse a \<and> m_first a = d \<and> next_start cs l = e"
      by simp
    then show ?thesis by (intro exI)
  next
    case False
    then have "(d, e) \<in> set (used_intervals cs l)"
      using Cons.prems by (auto split: if_splits)
    then obtain xs c ys where "cs = xs @ c # ys \<and> m_inUse c \<and> m_first c = d \<and> next_start ys l = e"
      using Cons.IH by blast
    then have "a # cs = (a # xs) @ c # ys \<and> m_inUse c \<and> m_first c = d \<and> next_start ys l = e"
      by simp
    then show ?thesis by (intro exI)
  qed
qed

lemma live_intervals:
  assumes "pool_inv p"
  shows "live p h \<longleftrightarrow> m_pool h = this_pool \<and>
     (sp_data (m_chunk h), span_end (m_chunk h)) \<in> set (used_intervals (m_chunks p) (m_last p))"
proof
  assume lv: "live p h"
  obtain xs c ys where cs: "m_chunks p = xs @ c # ys" and "find_chunk p h = length xs"
    and hit: "m_first c = sp_data (m_chunk h)" and use: "m_inUse c"
    and "\<forall>x\<in>set xs. m_first x \<noteq> sp_data (m_chunk h)"
    and e: "next_start ys (m_last p) = span_end (m_chunk h)"
    using live_split[OF assms lv] by blast
  have "used_intervals (m_chunks p) (m_last p) =
      used_intervals xs (m_first c) @ (m_first c, next_start ys (m_last p)) # used_intervals ys (m_last p)"
    using cs use by (simp add: used_intervals_append next_start_def)
  then have "(sp_data (m_chunk h), span_end (m_chunk h))
      \<in> set (used_intervals (m_chunks p) (m_last p))"
    using hit e by simp
  moreover have "m_pool h = this_pool" using lv by (simp add: live_def)
  ultimately show "m_pool h = this_pool \<and>
     (sp_data (m_chunk h), span_end (m_chunk h)) \<in> set (used_intervals (m_chunks p) (m_last p))"
    by simp
next
  assume r: "m_pool h = this_pool \<and>
     (sp_data (m_chunk h), span_end (m_chunk h)) \<in> set (used_intervals (m_chunks p) (m_last p))"
  then have "\<exists>xs c ys. m_chunks p = xs @ c # ys \<and> m_inUse c \<and> m_first c = sp_data (m_chunk h)
      \<and> next_start ys (m_last p) = span_end (m_chunk h)"
    by (intro used_intervals_mem) simp
  then obtain xs c ys where cs: "m_chunks p = xs @ c # ys" and use: "m_inUse c"
    and hit: "m_first c = sp_data (m_chunk h)"
    and e: "next_start ys (m_last p) = span_end (m_chunk h)"
    by blast
  have "\<forall>x\<in>set xs. m_first x < m_first c" using inv_split(1)[OF assms cs] .
  then have "\<forall>x\<in>set xs. m_first x \<noteq> sp_data (m_chunk h)" using hit by auto
  then have f: "find_chunk p h = length xs"
    using cs hit by (simp add: find_chunk_def find_if_hit)
  have se: "seg_end p (length xs) = span_end (m_chunk h)"
    using seg_end_at[OF cs] e by simp
  have "m_chunks p ! length xs = c" using cs by simp
  then show "live p h"
    using r f se use cs unfolding live_def by simp
qed

section \<open>Each operation preserves the invariants\<close>

lemma hd_starts: "hd (map m_first xs @ m_first c # r) = hd (map m_first xs @ m_first c # r')"
  by (cases xs) simp_all

lemma inv_insert_free:
  assumes inv: "pool_inv p" and cs: "m_chunks p = xs @ c0 # y # ys'"
    and y: "m_inUse y" and c: "m_first c = m_first c0" "m_inUse c"
    and a: "m_first c0 < a" "a < m_first y"
  shows "pool_inv (p\<lparr>m_chunks := xs @ c # \<lparr>m_first = a, m_inUse = False\<rparr> # y # ys'\<rparr>)"
proof -
  have srt: "sorted_wrt (<) (map m_first xs @ m_first c0 # m_first y # map m_first ys' @ [m_last p])"
    and b: "span_begin (m_memory p) \<le> hd (map m_first xs @ m_first c0 # m_first y # map m_first ys' @ [m_last p])"
    and le: "m_last p \<le> span_end (m_memory p)" "span_end (m_memory p) < 2 ^ 64"
    and adj: "successively (\<lambda>a b. m_inUse a \<or> m_inUse b) (xs @ c0 # y # ys')"
    and lst: "m_inUse (last (xs @ c0 # y # ys'))"
    using inv cs by (auto simp: pool_inv_def)
  have 1: "sorted_wrt (<) (map m_first xs @ m_first c # a # m_first y # map m_first ys' @ [m_last p])"
    using srt c a by (auto simp: sorted_wrt_append)
  have 2: "span_begin (m_memory p) \<le> hd (map m_first xs @ m_first c # a # m_first y # map m_first ys' @ [m_last p])"
    using b c hd_starts[of xs c0] hd_starts[of xs c] by (cases xs) simp_all
  have 3: "successively (\<lambda>a b. m_inUse a \<or> m_inUse b) (xs @ c # \<lparr>m_first = a, m_inUse = False\<rparr> # y # ys')"
    using adj c y by (simp add: successively_append_iff)
  have 4: "m_inUse (last (xs @ c # \<lparr>m_first = a, m_inUse = False\<rparr> # y # ys'))"
    using lst by simp
  show ?thesis using 1 2 3 4 le by (simp add: pool_inv_def)
qed

lemma inv_mark_used:
  assumes inv: "pool_inv p" and cs: "m_chunks p = xs @ c0 # ys"
  shows "pool_inv (p\<lparr>m_chunks := xs @ c0\<lparr>m_inUse := True\<rparr> # ys\<rparr>)"
proof -
  have srt: "sorted_wrt (<) (map m_first xs @ m_first c0 # map m_first ys @ [m_last p])"
    and b: "span_begin (m_memory p) \<le> hd (map m_first xs @ m_first c0 # map m_first ys @ [m_last p])"
    and le: "m_last p \<le> span_end (m_memory p)" "span_end (m_memory p) < 2 ^ 64"
    and adj: "successively (\<lambda>a b. m_inUse a \<or> m_inUse b) (xs @ c0 # ys)"
    and lst: "m_inUse (last (xs @ c0 # ys))"
    using inv cs by (auto simp: pool_inv_def)
  have 3: "successively (\<lambda>a b. m_inUse a \<or> m_inUse b) (xs @ c0\<lparr>m_inUse := True\<rparr> # ys)"
    using adj by (cases ys) (simp_all add: successively_append_iff)
  have 4: "m_inUse (last (xs @ c0\<lparr>m_inUse := True\<rparr> # ys))"
    using lst by (cases ys) simp_all
  show ?thesis using srt b 3 4 le by (simp add: pool_inv_def)
qed

lemma inv_move_start:
  assumes inv: "pool_inv p" and cs: "m_chunks p = xs @ c # y # ys'"
    and a: "m_first c < a" "a \<le> m_first y"
  shows "pool_inv (p\<lparr>m_chunks := xs @ c # y\<lparr>m_first := a\<rparr> # ys'\<rparr>)"
proof -
  have srt: "sorted_wrt (<) (map m_first xs @ m_first c # m_first y # map m_first ys' @ [m_last p])"
    and b: "span_begin (m_memory p) \<le> hd (map m_first xs @ m_first c # m_first y # map m_first ys' @ [m_last p])"
    and le: "m_last p \<le> span_end (m_memory p)" "span_end (m_memory p) < 2 ^ 64"
    and adj: "successively (\<lambda>a b. m_inUse a \<or> m_inUse b) (xs @ c # y # ys')"
    and lst: "m_inUse (last (xs @ c # y # ys'))"
    using inv cs by (auto simp: pool_inv_def)
  have 1: "sorted_wrt (<) (map m_first xs @ m_first c # a # map m_first ys' @ [m_last p])"
    using srt a by (auto simp: sorted_wrt_append)
  have 2: "span_begin (m_memory p) \<le> hd (map m_first xs @ m_first c # a # map m_first ys' @ [m_last p])"
    using b hd_starts[of xs c] by (cases xs) simp_all
  have 3: "successively (\<lambda>a b. m_inUse a \<or> m_inUse b) (xs @ c # y\<lparr>m_first := a\<rparr> # ys')"
    using adj by (cases ys') (simp_all add: successively_append_iff)
  have 4: "m_inUse (last (xs @ c # y\<lparr>m_first := a\<rparr> # ys'))"
    using lst by (cases ys') simp_all
  show ?thesis using 1 2 3 4 le by (simp add: pool_inv_def)
qed

lemma inv_retract:
  assumes inv: "pool_inv p" and cs: "m_chunks p = xs @ [c]"
    and a: "m_first c < a" "a \<le> m_last p"
  shows "pool_inv (p\<lparr>m_last := a\<rparr>)"
proof -
  have srt: "sorted_wrt (<) (map m_first xs @ m_first c # [m_last p])"
    and b: "span_begin (m_memory p) \<le> hd (map m_first xs @ m_first c # [m_last p])"
    and le: "m_last p \<le> span_end (m_memory p)" "span_end (m_memory p) < 2 ^ 64"
    and adj: "successively (\<lambda>a b. m_inUse a \<or> m_inUse b) (xs @ [c])"
    and lst: "m_inUse (last (xs @ [c]))"
    using inv cs by (auto simp: pool_inv_def)
  have 1: "sorted_wrt (<) (map m_first xs @ m_first c # [a])"
    using srt a by (auto simp: sorted_wrt_append)
  have 2: "span_begin (m_memory p) \<le> hd (map m_first xs @ m_first c # [a])"
    using b by (cases xs) simp_all
  show ?thesis using 1 2 adj lst le a cs by (simp add: pool_inv_def)
qed

lemma inv_append:
  assumes inv: "pool_inv p" and sz: "0 < sz" "m_last p + sz \<le> span_end (m_memory p)"
  shows "pool_inv (p\<lparr>m_chunks := m_chunks p @ [\<lparr>m_first = m_last p, m_inUse = True\<rparr>],
                     m_last := m_last p + sz\<rparr>)"
proof -
  let ?cs = "m_chunks p"
  have srt: "sorted_wrt (<) (map m_first ?cs @ [m_last p])"
    and b: "span_begin (m_memory p) \<le> hd (map m_first ?cs @ [m_last p])"
    and le: "span_end (m_memory p) < 2 ^ 64"
    and adj: "successively (\<lambda>a b. m_inUse a \<or> m_inUse b) ?cs"
    using inv by (auto simp: pool_inv_def)
  have 1: "sorted_wrt (<) (map m_first ?cs @ [m_last p, m_last p + sz])"
    using srt sz by (auto simp: sorted_wrt_append)
  have 2: "span_begin (m_memory p) \<le> hd (map m_first ?cs @ [m_last p, m_last p + sz])"
    using b by (cases ?cs) simp_all
  have 3: "successively (\<lambda>a b. m_inUse a \<or> m_inUse b) (?cs @ [\<lparr>m_first = m_last p, m_inUse = True\<rparr>])"
    using adj by (simp add: successively_append_iff)
  show ?thesis using 1 2 3 le sz by (simp add: pool_inv_def)
qed

lemma release_live:
  assumes inv: "pool_inv p" and lv: "live p h"
  shows "\<exists>p'. release p h = Inr p' \<and> pool_inv p' \<and> m_memory p' = m_memory p \<and>
           set (used_intervals (m_chunks p') (m_last p')) =
           set (used_intervals (m_chunks p) (m_last p)) - {(sp_data (m_chunk h), span_end (m_chunk h))}"
proof -
  obtain xs c ys where cs: "m_chunks p = xs @ c # ys" and it: "find_chunk p h = length xs"
    and hit: "m_first c = sp_data (m_chunk h)" and use: "m_inUse c"
    and miss: "\<forall>x\<in>set xs. m_first x \<noteq> sp_data (m_chunk h)"
    and e: "next_start ys (m_last p) = span_end (m_chunk h)"
    using live_split[OF inv lv] by blast
  note rel = release_decomp[OF cs miss hit]
  have srt: "sorted_wrt (<) (map m_first xs @ m_first c # map m_first ys @ [m_last p])"
    and b: "span_begin (m_memory p) \<le> hd (map m_first xs @ m_first c # map m_first ys @ [m_last p])"
    and le: "m_last p \<le> span_end (m_memory p)" "span_end (m_memory p) < 2 ^ 64"
    and adj: "successively (\<lambda>a b. m_inUse a \<or> m_inUse b) (xs @ c # ys)"
    and lst: "m_inUse (last (xs @ c # ys))"
    using inv cs by (auto simp: pool_inv_def)
  let ?I = "\<lambda>p. set (used_intervals (m_chunks p) (m_last p))"
  let ?k = "(sp_data (m_chunk h), span_end (m_chunk h))"
  have old: "?I p = set (used_intervals xs (m_first c)) \<union> {?k}
      \<union> set (used_intervals ys (m_last p))"
    using cs use hit e by (simp add: used_intervals_append next_start_def)
  have lt: "\<forall>x\<in>set xs. m_first x < m_first c" and gt: "\<forall>y\<in>set ys. m_first c < m_first y"
    using inv_split(1,2)[OF inv cs] by auto
  have nin1: "?k \<notin> set (used_intervals xs l')" for l'
    using lt hit used_intervals_fst[of "sp_data (m_chunk h)" "span_end (m_chunk h)" xs l'] by force
  have nin2: "?k \<notin> set (used_intervals ys l')" for l'
    using gt hit used_intervals_fst[of "sp_data (m_chunk h)" "span_end (m_chunk h)" ys l'] by force
  have fin: "\<And>p'. release p h = Inr p' \<Longrightarrow> pool_inv p' \<Longrightarrow> m_memory p' = m_memory p \<Longrightarrow>
      ?I p' = set (used_intervals xs (m_first c)) \<union> set (used_intervals ys (m_last p)) \<Longrightarrow> ?thesis"
    using old nin1 nin2 by auto
  show ?thesis
  proof (cases xs rule: rev_cases)
    case Nil
    show ?thesis
    proof (cases ys)
      case ysn: Nil
      let ?p' = "p\<lparr>m_chunks := [], m_last := m_first c\<rparr>"
      have r: "release p h = Inr ?p'" using rel Nil ysn by simp
      have "pool_inv ?p'" using b le srt Nil ysn by (simp add: pool_inv_def)
      then show ?thesis using r Nil ysn by (intro fin[of ?p']) simp_all
    next
      case (Cons y ys')
      show ?thesis
      proof (cases "m_inUse y")
        case True
        let ?p' = "p\<lparr>m_chunks := c\<lparr>m_inUse := False\<rparr> # ys\<rparr>"
        have r: "release p h = Inr ?p'" using rel Nil Cons True by simp
        have "pool_inv ?p'" using b le srt adj lst Nil Cons True
          by (simp add: pool_inv_def)
        then show ?thesis using r Nil Cons True by (intro fin[of ?p']) simp_all
      next
        case False
        let ?p' = "p\<lparr>m_chunks := c\<lparr>m_inUse := False\<rparr> # ys'\<rparr>"
        have r: "release p h = Inr ?p'" using rel Nil Cons False by simp
        have ne: "ys' \<noteq> []" using lst Cons False by auto
        have "pool_inv ?p'" using b le srt adj lst Nil Cons False ne
          by (cases ys') (auto simp: pool_inv_def)
        then show ?thesis using r Nil Cons False by (intro fin[of ?p']) simp_all
      qed
    qed
  next
    case (snoc xs' x)
    show ?thesis
    proof (cases "m_inUse x")
      case xu: True
      show ?thesis
      proof (cases ys)
        case Nil
        let ?p' = "p\<lparr>m_chunks := xs, m_last := m_first c\<rparr>"
        have r: "release p h = Inr ?p'" using rel snoc xu Nil by simp
        have "pool_inv ?p'" using b le srt adj snoc xu Nil
          by (auto simp: pool_inv_def sorted_wrt_append successively_append_iff successively_Cons hd_append)
        then show ?thesis using r Nil by (intro fin[of ?p']) simp_all
      next
        case (Cons y ys')
        show ?thesis
        proof (cases "m_inUse y")
          case True
          let ?p' = "p\<lparr>m_chunks := xs @ c\<lparr>m_inUse := False\<rparr> # ys\<rparr>"
          have r: "release p h = Inr ?p'" using rel snoc xu Cons True by simp
          have "pool_inv ?p'" using b le srt adj lst snoc xu Cons True
            by (auto simp: pool_inv_def sorted_wrt_append successively_append_iff successively_Cons hd_append)
          then show ?thesis using r Cons True
            by (intro fin[of ?p']) (simp_all add: used_intervals_append next_start_def)
        next
          case False
          let ?p' = "p\<lparr>m_chunks := xs @ c\<lparr>m_inUse := False\<rparr> # ys'\<rparr>"
          have r: "release p h = Inr ?p'" using rel snoc xu Cons False by simp
          have ne: "ys' \<noteq> []" using lst Cons False by auto
          have "pool_inv ?p'" using b le srt adj lst snoc xu Cons False ne
            by (auto simp: pool_inv_def sorted_wrt_append successively_append_iff successively_Cons hd_append)
          then show ?thesis using r Cons False
            by (intro fin[of ?p']) (simp_all add: used_intervals_append next_start_def)
        qed
      qed
    next
      case xf: False
      have ui: "used_intervals xs l' = used_intervals xs' (m_first x)" for l'
        using snoc xf by (simp add: used_intervals_append next_start_def)
      show ?thesis
      proof (cases ys)
        case Nil
        let ?p' = "p\<lparr>m_chunks := xs', m_last := m_first x\<rparr>"
        have r: "release p h = Inr ?p'" using rel snoc xf Nil by simp
        have "pool_inv ?p'" using b le srt adj snoc xf Nil
          by (auto simp: pool_inv_def sorted_wrt_append successively_append_iff successively_Cons hd_append)
        then show ?thesis using r Nil ui by (intro fin[of ?p']) simp_all
      next
        case (Cons y ys')
        show ?thesis
        proof (cases "m_inUse y")
          case True
          let ?p' = "p\<lparr>m_chunks := xs @ ys\<rparr>"
          have r: "release p h = Inr ?p'" using rel snoc xf Cons True by simp
          have "pool_inv ?p'" using b le srt adj lst snoc xf Cons True
            by (auto simp: pool_inv_def sorted_wrt_append successively_append_iff successively_Cons hd_append)
          then show ?thesis using r Cons True ui
            by (intro fin[of ?p']) (simp_all add: used_intervals_append)
        next
          case False
          let ?p' = "p\<lparr>m_chunks := xs @ ys'\<rparr>"
          have r: "release p h = Inr ?p'" using rel snoc xf Cons False by simp
          have ne: "ys' \<noteq> []" using lst Cons False by auto
          have "pool_inv ?p'" using b le srt adj lst snoc xf Cons False ne
            by (auto simp: pool_inv_def sorted_wrt_append successively_append_iff successively_Cons hd_append)
          then show ?thesis using r Cons False ui
            by (intro fin[of ?p']) (simp_all add: used_intervals_append)
        qed
      qed
    qed
  qed
qed

lemma shrink_inv:
  assumes inv: "pool_inv p" and lv: "live p h" and n: "0 < n" "n \<le> sp_size (m_chunk h)"
  shows "\<exists>p'. shrink h n p = Inr (h\<lparr>m_chunk := span_of (span_begin (m_chunk h)) n\<rparr>, p') \<and>
     pool_inv p' \<and> m_memory p' = m_memory p \<and>
     set (used_intervals (m_chunks p') (m_last p')) =
       insert (sp_data (m_chunk h), sp_data (m_chunk h) + n)
         (set (used_intervals (m_chunks p) (m_last p)) - {(sp_data (m_chunk h), span_end (m_chunk h))})"
proof -
  let ?h' = "h\<lparr>m_chunk := span_of (span_begin (m_chunk h)) n\<rparr>"
  let ?I = "\<lambda>p. set (used_intervals (m_chunks p) (m_last p))"
  let ?d = "sp_data (m_chunk h)"
  let ?k = "(?d, span_end (m_chunk h))"
  obtain xs c ys where cs: "m_chunks p = xs @ c # ys" and it: "find_chunk p h = length xs"
    and hit: "m_first c = ?d" and use: "m_inUse c"
    and miss: "\<forall>x\<in>set xs. m_first x \<noteq> ?d"
    and e: "next_start ys (m_last p) = span_end (m_chunk h)"
    using live_split[OF inv lv] by blast
  have pl: "m_pool h = this_pool" using lv by (simp add: live_def)
  have old: "?I p = set (used_intervals xs (m_first c)) \<union> {?k} \<union> set (used_intervals ys (m_last p))"
    using cs use hit e by (simp add: used_intervals_append next_start_def)
  have lt: "\<forall>x\<in>set xs. m_first x < m_first c" and gt: "\<forall>y\<in>set ys. m_first c < m_first y"
    using inv_split(1,2)[OF inv cs] by auto
  have nin1: "?k \<notin> set (used_intervals xs l')" for l'
    using lt hit used_intervals_fst[of ?d "span_end (m_chunk h)" xs l'] by force
  have nin2: "?k \<notin> set (used_intervals ys l')" for l'
    using gt hit used_intervals_fst[of ?d "span_end (m_chunk h)" ys l'] by force
  have diff: "?I p - {?k} = set (used_intervals xs (m_first c)) \<union> set (used_intervals ys (m_last p))"
    using old nin1[of "m_first c"] nin2[of "m_last p"] by auto
  have fin: ?thesis
    if "shrink h n p = Inr (?h', p')" "pool_inv p'" "m_memory p' = m_memory p"
      "?I p' = set (used_intervals xs (m_first c)) \<union> {(?d, ?d + n)} \<union> set (used_intervals ys (m_last p))"
    for p'
  proof -
    have "?I p' = insert (?d, ?d + n) (?I p - {?k})"
      using that(4) diff by auto
    then show ?thesis using that(1,2,3) by blast
  qed
  show ?thesis
  proof (cases "n = sp_size (m_chunk h)")
    case True
    then have "?h' = h" by (simp add: span_of_def span_begin_def)
    moreover have "shrink h n p = Inr (h, p)" using True by (simp add: shrink_def)
    moreover have "?d + n = span_end (m_chunk h)" using True by (simp add: span_end_def)
    ultimately show ?thesis using inv old by (intro fin[of p]) simp_all
  next
    case False
    then have nlt: "n < sp_size (m_chunk h)" using n by simp
    have d': "sp_data (m_chunk ?h') = ?d" "span_end (m_chunk ?h') = ?d + n"
      by (simp_all add: span_of_def span_begin_def span_end_def)
    have miss': "\<forall>x\<in>set xs. m_first x \<noteq> sp_data (m_chunk ?h')" using miss d' by simp
    have hit': "m_first c = sp_data (m_chunk ?h')" using hit d' by simp
    note rs = resize_decomp[OF cs miss' hit']
    have sh: "\<And>p'. resize p ?h' = Inr p' \<Longrightarrow> shrink h n p = Inr (?h', p')"
      using False n pl by (simp add: shrink_def)
    have en: "next_start ys (m_last p) = ?d + sp_size (m_chunk h)"
      using e by (simp add: span_end_def)
    have a1: "m_first c < ?d + n" using hit n by simp
    show ?thesis
    proof (cases ys)
      case Nil
      let ?p' = "p\<lparr>m_last := ?d + n\<rparr>"
      have r: "resize p ?h' = Inr ?p'" using rs Nil d' by simp
      have "?d + n \<le> m_last p" using en Nil nlt by (simp add: next_start_def)
      then have pi: "pool_inv ?p'"
        using inv_retract[OF inv _ a1] cs Nil by simp
      have "?I ?p' = set (used_intervals xs (m_first c)) \<union> {(?d, ?d + n)}"
        using cs Nil use hit by (simp add: used_intervals_append next_start_def)
      then show ?thesis using sh[OF r] pi Nil by (intro fin[of ?p']) simp_all
    next
      case (Cons y ys')
      have y: "m_first y = ?d + sp_size (m_chunk h)" using en Cons by (simp add: next_start_def)
      have a2: "?d + n < m_first y" using y nlt by simp
      have cs': "m_chunks p = xs @ c # y # ys'" using cs Cons by simp
      show ?thesis
      proof (cases "m_inUse y")
        case True
        let ?p' = "p\<lparr>m_chunks := xs @ c # \<lparr>m_first = ?d + n, m_inUse = False\<rparr> # y # ys'\<rparr>"
        have r: "resize p ?h' = Inr ?p'" using rs Cons True d' by simp
        have pi: "pool_inv ?p'"
          using inv_insert_free[OF inv cs' True refl use a1 a2] .
        have "?I ?p' = set (used_intervals xs (m_first c)) \<union> {(?d, ?d + n)}
            \<union> set (used_intervals ys (m_last p))"
          using Cons use hit by (simp add: used_intervals_append next_start_def)
        then show ?thesis using sh[OF r] pi by (intro fin[of ?p']) simp_all
      next
        case False
        let ?p' = "p\<lparr>m_chunks := xs @ c # y\<lparr>m_first := ?d + n\<rparr> # ys'\<rparr>"
        have r: "resize p ?h' = Inr ?p'" using rs Cons False d' by simp
        have pi: "pool_inv ?p'"
          using inv_move_start[OF inv cs' a1] a2 by simp
        have "?I ?p' = set (used_intervals xs (m_first c)) \<union> {(?d, ?d + n)}
            \<union> set (used_intervals ys (m_last p))"
          using Cons use hit False by (simp add: used_intervals_append next_start_def)
        then show ?thesis using sh[OF r] pi by (intro fin[of ?p']) simp_all
      qed
    qed
  qed
qed

lemma inv_begin_le:
  assumes "pool_inv p" and "m_chunks p = xs @ c # ys"
  shows "span_begin (m_memory p) \<le> m_first c"
proof -
  have b: "span_begin (m_memory p) \<le> hd (map m_first xs @ m_first c # map m_first ys @ [m_last p])"
    using assms by (simp add: pool_inv_def)
  have lt: "\<forall>x\<in>set xs. m_first x < m_first c" using inv_split(1)[OF assms] .
  show ?thesis using b lt by (cases xs) auto
qed

lemma inv_begin_le_last: "pool_inv p \<Longrightarrow> span_begin (m_memory p) \<le> m_last p"
  by (cases "m_chunks p") (auto simp: pool_inv_def)

lemma request_inv:
  assumes inv: "pool_inv p" and sz: "0 < sz" "sz < size_pool p"
  shows "case request p sz of
           (Inl e, p') \<Rightarrow> e = overflow_error \<and> p' = p
         | (Inr h, p') \<Rightarrow>
             pool_inv p' \<and> m_memory p' = m_memory p \<and> m_pool h = this_pool \<and>
             sp_size (m_chunk h) = sz \<and> span_begin (m_memory p) \<le> sp_data (m_chunk h) \<and>
             sp_data (m_chunk h) \<notin> fst ` set (used_intervals (m_chunks p) (m_last p)) \<and>
             set (used_intervals (m_chunks p') (m_last p')) =
               insert (sp_data (m_chunk h), span_end (m_chunk h))
                 (set (used_intervals (m_chunks p) (m_last p)))"
proof (cases "\<forall>c\<in>set (m_chunks p). fits p sz c = Inr False")
  case True
  let ?l = "m_last p"
  have le: "?l \<le> span_end (m_memory p)" and e64: "span_end (m_memory p) < 2 ^ 64"
    using inv by (simp_all add: pool_inv_def)
  have req: "request p sz =
     (if to_size_t (distance ?l (span_end (m_memory p))) < sz then (Inl overflow_error, p)
      else (Inr \<lparr>m_chunk = span_of ?l sz, m_pool = this_pool\<rparr>,
            p\<lparr>m_chunks := m_chunks p @ [\<lparr>m_first = ?l, m_inUse = True\<rparr>],
              m_last := ?l + sz\<rparr>))"
    using sz True le by (intro request_append) (simp_all add: size_pool_def)
  show ?thesis
  proof (cases "to_size_t (distance ?l (span_end (m_memory p))) < sz")
    case True
    then show ?thesis using req by simp
  next
    case False
    let ?h = "\<lparr>m_chunk = span_of ?l sz, m_pool = this_pool\<rparr>"
    let ?p' = "p\<lparr>m_chunks := m_chunks p @ [\<lparr>m_first = ?l, m_inUse = True\<rparr>],
              m_last := ?l + sz\<rparr>"
    have "to_size_t (distance ?l (span_end (m_memory p))) = span_end (m_memory p) - ?l"
      using le e64 by (rule to_size_t_distance)
    then have room: "?l + sz \<le> span_end (m_memory p)" using False le by simp
    have pi: "pool_inv ?p'" using inv_append[OF inv sz(1) room] .
    have "sorted_wrt (<) (map m_first (m_chunks p) @ [?l])"
      using inv by (simp add: pool_inv_def)
    then have lt: "\<forall>x\<in>set (m_chunks p). m_first x < ?l"
      by (auto simp: sorted_wrt_append)
    have nin: "?l \<notin> fst ` set (used_intervals (m_chunks p) ?l)"
      using lt used_intervals_fst[of ?l _ "m_chunks p" ?l] by force
    have iv: "set (used_intervals (m_chunks ?p') (m_last ?p')) =
        insert (?l, ?l + sz) (set (used_intervals (m_chunks p) ?l))"
      by (simp add: used_intervals_append next_start_def)
    have "span_begin (m_memory p) \<le> ?l" using inv by (rule inv_begin_le_last)
    then show ?thesis using req False pi nin iv
      by (simp add: span_of_def span_end_def)
  qed
next
  case False
  then have "\<exists>c\<in>set (m_chunks p). \<not> fits p sz c = Inr False" by blast
  then obtain xs c ys where cs: "m_chunks p = xs @ c # ys"
    and hit: "fits p sz c \<noteq> Inr False" and later: "\<forall>y\<in>set ys. fits p sz y = Inr False"
    using split_list_last_prop[of "m_chunks p" "\<lambda>c. fits p sz c \<noteq> Inr False"] by auto
  have "c \<in> set (m_chunks p)" using cs by simp
  then obtain s where free: "\<not> m_inUse c" and s: "size_chunk p c = Inr s" "sz \<le> s"
    using fits_total[of c p sz] hit by auto
  have lt: "\<forall>x\<in>set xs. m_first x < m_first c" and gt: "\<forall>y\<in>set ys. m_first c < m_first y"
    using inv_split(1,2)[OF inv cs] by auto
  have miss: "\<forall>x\<in>set xs. m_first x \<noteq> m_first c" using lt by auto
  let ?d = "m_first c"
  let ?h = "\<lparr>m_chunk = span_of ?d sz, m_pool = this_pool\<rparr>"
  let ?rest = "if s \<noteq> sz then \<lparr>m_first = ?d + sz, m_inUse = False\<rparr> # ys else ys"
  let ?p' = "p\<lparr>m_chunks := xs @ c\<lparr>m_inUse := True\<rparr> # ?rest\<rparr>"
  have req: "request p sz = (Inr ?h, ?p')"
    using request_reuse[OF _ cs free s later miss] sz by (simp add: size_pool_def)
  have nb: "ys \<noteq> []" "m_inUse (hd ys)"
    using inv_free_neighbours[OF inv cs free] by auto
  then obtain y ys' where ys: "ys = y # ys'" and y: "m_inUse y"
    by (cases ys) auto
  have bnd: "?d < next_start ys (m_last p)" "next_start ys (m_last p) \<le> m_last p"
    using inv_split(4,5)[OF inv cs] by auto
  have "m_last p < 2 ^ 64" using inv by (simp add: pool_inv_def)
  then have "size_chunk p c = Inr (next_start ys (m_last p) - ?d)"
    using size_chunk_at[OF cs miss] bnd by (simp add: to_size_t_distance)
  then have sv: "s = m_first y - ?d" using s(1) ys by (simp add: next_start_def)
  have dy: "?d < m_first y" using bnd(1) ys by (simp add: next_start_def)
  have cs': "m_chunks p = xs @ c # y # ys'" using cs ys by simp
  let ?I = "\<lambda>p. set (used_intervals (m_chunks p) (m_last p))"
  have old: "?I p = set (used_intervals xs ?d) \<union> set (used_intervals ys (m_last p))"
    using cs free by (simp add: used_intervals_append next_start_def)
  have nin: "?d \<notin> fst ` ?I p"
  proof
    assume "?d \<in> fst ` ?I p"
    then obtain e' where "(?d, e') \<in> set (used_intervals xs ?d) \<or> (?d, e') \<in> set (used_intervals ys (m_last p))"
      using old by fastforce
    then have "?d \<in> m_first ` set xs \<or> ?d \<in> m_first ` set ys"
      using used_intervals_fst by blast
    then show False using lt gt by auto
  qed
  have bl: "span_begin (m_memory p) \<le> ?d" using inv_begin_le[OF inv cs] .
  have new: "pool_inv ?p' \<and> ?I ?p' = insert (?d, ?d + sz) (?I p)"
  proof (cases "s = sz")
    case True
    have "pool_inv (p\<lparr>m_chunks := xs @ c\<lparr>m_inUse := True\<rparr> # ys\<rparr>)"
      using inv_mark_used[OF inv cs] .
    moreover have "m_first y = ?d + sz" using sv True dy by simp
    then have "set (used_intervals (xs @ c\<lparr>m_inUse := True\<rparr> # ys) (m_last p)) = insert (?d, ?d + sz) (?I p)"
      using old ys by (simp add: used_intervals_append next_start_def)
    ultimately show ?thesis using True by simp
  next
    case False
    then have a2: "?d + sz < m_first y" using s(2) sv by simp
    have a1: "?d < ?d + sz" using sz by simp
    have "pool_inv (p\<lparr>m_chunks := xs @ c\<lparr>m_inUse := True\<rparr> # \<lparr>m_first = ?d + sz, m_inUse = False\<rparr> # y # ys'\<rparr>)"
      using inv_insert_free[OF inv cs' y _ _ a1 a2, of "c\<lparr>m_inUse := True\<rparr>"] by simp
    moreover have "set (used_intervals (xs @ c\<lparr>m_inUse := True\<rparr> # \<lparr>m_first = ?d + sz, m_inUse = False\<rparr> # ys) (m_last p))
        = insert (?d, ?d + sz) (?I p)"
      using old by (simp add: used_intervals_append next_start_def)
    ultimately show ?thesis using False ys by simp
  qed
  show ?thesis using req new nin bl
    by (simp add: span_of_def span_end_def)
qed

section \<open>Runs that keep to the preconditions preserve the invariants\<close>

lemma handle_ok_keep:
  assumes "pool_inv p" and "pool_inv p'" and "handle_ok p g"
    and "m_chunk g \<noteq> span_default \<Longrightarrow> key g \<in> intervals p \<Longrightarrow> key g \<in> intervals p'"
  shows "handle_ok p' g"
  using assms by (auto simp: handle_ok_def live_intervals)

lemma request_step:
  assumes ci: "client_inv (p, hs)" and pre: "pre (p, hs) (Request sz)"
  shows "case step (p, hs) (Request sz) of Inl e \<Rightarrow> e = overflow_error | Inr s' \<Rightarrow> client_inv s'"
proof (cases "request p sz")
  case (Pair r p')
  have inv: "pool_inv p" and b0: "0 < span_begin (m_memory p)"
    and ok: "\<forall>i<length hs. handle_ok p (hs ! i)"
    and dis: "\<forall>i<length hs. \<forall>j<length hs.
        i \<noteq> j \<and> m_chunk (hs ! i) \<noteq> span_default \<and> m_chunk (hs ! j) \<noteq> span_default
        \<longrightarrow> sp_data (m_chunk (hs ! i)) \<noteq> sp_data (m_chunk (hs ! j))"
    using ci by (auto simp: client_inv_def)
  have sz: "0 < sz" "sz < size_pool p" using pre by auto
  note ri = request_inv[OF inv sz]
  show ?thesis
  proof (cases r)
    case (Inl e)
    then show ?thesis using ri Pair by simp
  next
    case (Inr h)
    have pi: "pool_inv p'" and mm: "m_memory p' = m_memory p" and hp: "m_pool h = this_pool"
      and hs: "sp_size (m_chunk h) = sz"
      and nin: "sp_data (m_chunk h) \<notin> fst ` intervals p"
      and iv: "intervals p' = insert (key h) (intervals p)"
      using ri Pair Inr by auto
    have st: "step (p, hs) (Request sz) = Inr (p', hs @ [h])"
      using Pair Inr by simp
    have hl: "live p' h" using pi hp iv by (simp add: live_intervals)
    have okh: "handle_ok p' h" using hl hp hs sz by (simp add: handle_ok_def)
    have ok': "\<forall>i<length (hs @ [h]). handle_ok p' ((hs @ [h]) ! i)"
    proof (intro allI impI)
      fix i assume "i < length (hs @ [h])"
      then consider "i < length hs" | "i = length hs" by force
      then show "handle_ok p' ((hs @ [h]) ! i)"
      proof cases
        case 1
        then have "handle_ok p' (hs ! i)"
          using handle_ok_keep[OF inv pi, of "hs ! i"] ok iv by simp
        then show ?thesis using 1 by (simp add: nth_append)
      next
        case 2
        then show ?thesis using okh by simp
      qed
    qed
    have old_in: "sp_data (m_chunk (hs ! i)) \<in> fst ` intervals p"
      if "i < length hs" "m_chunk (hs ! i) \<noteq> span_default" for i
    proof -
      have "live p (hs ! i)" using ok that by (auto simp: handle_ok_def)
      then have "key (hs ! i) \<in> intervals p" using inv by (simp add: live_intervals)
      then show ?thesis by force
    qed
    have dis': "\<forall>i<length (hs @ [h]). \<forall>j<length (hs @ [h]).
        i \<noteq> j \<and> m_chunk ((hs @ [h]) ! i) \<noteq> span_default \<and> m_chunk ((hs @ [h]) ! j) \<noteq> span_default
        \<longrightarrow> sp_data (m_chunk ((hs @ [h]) ! i)) \<noteq> sp_data (m_chunk ((hs @ [h]) ! j))"
    proof (intro allI impI)
      fix i j
      assume i: "i < length (hs @ [h])" and j: "j < length (hs @ [h])"
        and c: "i \<noteq> j \<and> m_chunk ((hs @ [h]) ! i) \<noteq> span_default \<and> m_chunk ((hs @ [h]) ! j) \<noteq> span_default"
      consider "i < length hs" "j < length hs" | "i < length hs" "j = length hs"
        | "i = length hs" "j < length hs"
        using i j c by force
      then show "sp_data (m_chunk ((hs @ [h]) ! i)) \<noteq> sp_data (m_chunk ((hs @ [h]) ! j))"
      proof cases
        case 1
        then show ?thesis using dis c by (simp add: nth_append)
      next
        case 2
        then have "sp_data (m_chunk (hs ! i)) \<in> fst ` intervals p"
          using old_in[of i] c by (simp add: nth_append)
        then have "sp_data (m_chunk (hs ! i)) \<noteq> sp_data (m_chunk h)"
          using nin by metis
        then show ?thesis using 2 by (simp add: nth_append)
      next
        case 3
        then have "sp_data (m_chunk (hs ! j)) \<in> fst ` intervals p"
          using old_in[of j] c by (simp add: nth_append)
        then have "sp_data (m_chunk h) \<noteq> sp_data (m_chunk (hs ! j))"
          using nin by metis
        then show ?thesis using 3 by (simp add: nth_append)
      qed
    qed
    have "client_inv (p', hs @ [h])"
      using pi mm b0 ok' dis' unfolding client_inv_def fst_conv snd_conv by simp
    then show ?thesis using st by simp
  qed
qed

lemma release_step:
  assumes ci: "client_inv (p, hs)" and pre: "pre (p, hs) (Release i)"
  shows "case step (p, hs) (Release i) of Inl e \<Rightarrow> e = overflow_error | Inr s' \<Rightarrow> client_inv s'"
proof -
  have inv: "pool_inv p" and b0: "0 < span_begin (m_memory p)"
    and ok: "\<forall>i<length hs. handle_ok p (hs ! i)"
    and dis: "\<forall>i<length hs. \<forall>j<length hs.
        i \<noteq> j \<and> m_chunk (hs ! i) \<noteq> span_default \<and> m_chunk (hs ! j) \<noteq> span_default
        \<longrightarrow> sp_data (m_chunk (hs ! i)) \<noteq> sp_data (m_chunk (hs ! j))"
    using ci by (auto simp: client_inv_def)
  let ?h = "hs ! i"
  let ?h' = "?h\<lparr>m_chunk := span_default\<rparr>"
  have i: "i < length hs" and nr: "m_chunk ?h \<noteq> span_default" using pre by auto
  have hp: "m_pool ?h = this_pool" and lv: "live p ?h"
    using ok i nr by (auto simp: handle_ok_def)
  obtain p' where rel: "release p ?h = Inr p'" and pi: "pool_inv p'"
    and mm: "m_memory p' = m_memory p"
    and iv: "intervals p' = intervals p - {key ?h}"
    using release_live[OF inv lv] by blast
  have st: "step (p, hs) (Release i) = Inr (p', hs[i := ?h'])"
    using i hp rel by (simp add: Chunk_release_def)
  have ok': "\<forall>j<length (hs[i := ?h']). handle_ok p' (hs[i := ?h'] ! j)"
  proof (intro allI impI)
    fix j assume j: "j < length (hs[i := ?h'])"
    show "handle_ok p' (hs[i := ?h'] ! j)"
    proof (cases "j = i")
      case True
      then show ?thesis using i hp by (simp add: handle_ok_def)
    next
      case False
      have "key (hs ! j) \<in> intervals p'"
        if "m_chunk (hs ! j) \<noteq> span_default" "key (hs ! j) \<in> intervals p"
      proof -
        have "sp_data (m_chunk (hs ! j)) \<noteq> sp_data (m_chunk ?h)"
          using dis j i False that(1) nr by simp
        then have "key (hs ! j) \<noteq> key ?h" by simp
        then show ?thesis using that(2) iv by simp
      qed
      then have "handle_ok p' (hs ! j)"
        using handle_ok_keep[OF inv pi, of "hs ! j"] ok j by simp
      then show ?thesis using False by simp
    qed
  qed
  have dis': "\<forall>a<length (hs[i := ?h']). \<forall>b<length (hs[i := ?h']).
        a \<noteq> b \<and> m_chunk (hs[i := ?h'] ! a) \<noteq> span_default \<and> m_chunk (hs[i := ?h'] ! b) \<noteq> span_default
        \<longrightarrow> sp_data (m_chunk (hs[i := ?h'] ! a)) \<noteq> sp_data (m_chunk (hs[i := ?h'] ! b))"
  proof (intro allI impI)
    fix a b
    assume a: "a < length (hs[i := ?h'])" and b: "b < length (hs[i := ?h'])"
      and c: "a \<noteq> b \<and> m_chunk (hs[i := ?h'] ! a) \<noteq> span_default \<and> m_chunk (hs[i := ?h'] ! b) \<noteq> span_default"
    have "a \<noteq> i" "b \<noteq> i" using c a b by (auto simp: nth_list_update)
    then show "sp_data (m_chunk (hs[i := ?h'] ! a)) \<noteq> sp_data (m_chunk (hs[i := ?h'] ! b))"
      using dis a b c by simp
  qed
  have "client_inv (p', hs[i := ?h'])"
    using pi mm b0 ok' dis' unfolding client_inv_def fst_conv snd_conv by simp
  then show ?thesis using st by simp
qed

lemma shrink_step:
  assumes ci: "client_inv (p, hs)" and pre: "pre (p, hs) (Shrink i n)"
  shows "case step (p, hs) (Shrink i n) of Inl e \<Rightarrow> e = overflow_error | Inr s' \<Rightarrow> client_inv s'"
proof -
  have inv: "pool_inv p" and b0: "0 < span_begin (m_memory p)"
    and ok: "\<forall>i<length hs. handle_ok p (hs ! i)"
    and dis: "\<forall>i<length hs. \<forall>j<length hs.
        i \<noteq> j \<and> m_chunk (hs ! i) \<noteq> span_default \<and> m_chunk (hs ! j) \<noteq> span_default
        \<longrightarrow> sp_data (m_chunk (hs ! i)) \<noteq> sp_data (m_chunk (hs ! j))"
    using ci by (auto simp: client_inv_def)
  let ?h = "hs ! i"
  let ?h' = "?h\<lparr>m_chunk := span_of (span_begin (m_chunk ?h)) n\<rparr>"
  have i: "i < length hs" and nr: "m_chunk ?h \<noteq> span_default"
    and n: "0 < n" "n \<le> sp_size (m_chunk ?h)" using pre by auto
  have hp: "m_pool ?h = this_pool" and lv: "live p ?h"
    using ok i nr by (auto simp: handle_ok_def)
  obtain p' where sh: "shrink ?h n p = Inr (?h', p')" and pi: "pool_inv p'"
    and mm: "m_memory p' = m_memory p"
    and iv: "intervals p' = insert (sp_data (m_chunk ?h), sp_data (m_chunk ?h) + n)
         (intervals p - {key ?h})"
    using shrink_inv[OF inv lv n] by blast
  have st: "step (p, hs) (Shrink i n) = Inr (p', hs[i := ?h'])"
    using i sh by simp
  have d': "sp_data (m_chunk ?h') = sp_data (m_chunk ?h)" "sp_size (m_chunk ?h') = n"
    "key ?h' = (sp_data (m_chunk ?h), sp_data (m_chunk ?h) + n)" "m_pool ?h' = this_pool"
    using hp by (simp_all add: span_of_def span_begin_def span_end_def)
  have nr': "m_chunk ?h' \<noteq> span_default"
    using n by (simp add: span_of_def span_default_def)
  have "live p' ?h'" using pi d' iv by (simp add: live_intervals)
  then have okh: "handle_ok p' ?h'" using d' n by (simp add: handle_ok_def)
  have ok': "\<forall>j<length (hs[i := ?h']). handle_ok p' (hs[i := ?h'] ! j)"
  proof (intro allI impI)
    fix j assume j: "j < length (hs[i := ?h'])"
    show "handle_ok p' (hs[i := ?h'] ! j)"
    proof (cases "j = i")
      case True
      then show ?thesis using i okh by simp
    next
      case False
      have "key (hs ! j) \<in> intervals p'"
        if "m_chunk (hs ! j) \<noteq> span_default" "key (hs ! j) \<in> intervals p"
      proof -
        have "sp_data (m_chunk (hs ! j)) \<noteq> sp_data (m_chunk ?h)"
          using dis j i False that(1) nr by simp
        then have "key (hs ! j) \<noteq> key ?h" by simp
        then show ?thesis using that(2) iv by simp
      qed
      then have "handle_ok p' (hs ! j)"
        using handle_ok_keep[OF inv pi, of "hs ! j"] ok j by simp
      then show ?thesis using False by simp
    qed
  qed
  have dis': "\<forall>a<length (hs[i := ?h']). \<forall>b<length (hs[i := ?h']).
        a \<noteq> b \<and> m_chunk (hs[i := ?h'] ! a) \<noteq> span_default \<and> m_chunk (hs[i := ?h'] ! b) \<noteq> span_default
        \<longrightarrow> sp_data (m_chunk (hs[i := ?h'] ! a)) \<noteq> sp_data (m_chunk (hs[i := ?h'] ! b))"
  proof (intro allI impI)
    fix a b
    assume a: "a < length (hs[i := ?h'])" and b: "b < length (hs[i := ?h'])"
      and c: "a \<noteq> b \<and> m_chunk (hs[i := ?h'] ! a) \<noteq> span_default \<and> m_chunk (hs[i := ?h'] ! b) \<noteq> span_default"
    have da: "sp_data (m_chunk (hs[i := ?h'] ! a)) = sp_data (m_chunk (hs ! a))"
      using a d'(1) by (cases "a = i") simp_all
    have db: "sp_data (m_chunk (hs[i := ?h'] ! b)) = sp_data (m_chunk (hs ! b))"
      using b d'(1) by (cases "b = i") simp_all
    have ra: "m_chunk (hs ! a) \<noteq> span_default"
      using a c nr by (cases "a = i") simp_all
    have rb: "m_chunk (hs ! b) \<noteq> span_default"
      using b c nr by (cases "b = i") simp_all
    show "sp_data (m_chunk (hs[i := ?h'] ! a)) \<noteq> sp_data (m_chunk (hs[i := ?h'] ! b))"
      using dis a b c ra rb da db by simp
  qed
  have "client_inv (p', hs[i := ?h'])"
    using pi mm b0 ok' dis' unfolding client_inv_def fst_conv snd_conv by simp
  then show ?thesis using st by simp
qed

text \<open>
  A call within its precondition, made by a client that satisfies the invariant,
  fails only with the capacity error and otherwise leaves a client that satisfies
  the invariant; so does a run of such calls.
\<close>

theorem step_preserves_invariants:
  assumes "client_inv s" and "pre s c"
  shows "case step s c of Inl e \<Rightarrow> e = overflow_error | Inr s' \<Rightarrow> client_inv s'"
proof (cases s)
  case (Pair p hs)
  then show ?thesis
    using assms request_step[of p hs] release_step[of p hs] shrink_step[of p hs]
    by (cases c) simp_all
qed

theorem run_preserves_invariants:
  assumes "client_inv s" and "admissible s cs"
  shows "case run s cs of Inl e \<Rightarrow> e = overflow_error | Inr s' \<Rightarrow> client_inv s'"
  using assms
proof (induction cs arbitrary: s)
  case Nil
  then show ?case by simp
next
  case (Cons c cs)
  have pre: "pre s c" using Cons.prems(2) by simp
  show ?case
  proof (cases "step s c")
    case (Inl e)
    then show ?thesis using step_preserves_invariants[OF Cons.prems(1) pre] by simp
  next
    case (Inr s')
    then have "client_inv s'" "admissible s' cs"
      using step_preserves_invariants[OF Cons.prems(1) pre] Cons.prems(2) by simp_all
    then show ?thesis using Cons.IH[of s'] Inr by simp
  qed
qed

lemma fresh_client_inv: "0 < b \<Longrightarrow> b + n < 2 ^ 64 \<Longrightarrow> client_inv (fresh b n)"
  by (simp add: client_inv_def fresh_def new_pool_def pool_inv_def span_of_def span_begin_def span_end_def)

text \<open>
  From a fresh pool, every run whose calls keep to the preconditions and whose sizes
  are at least one element ends, if it ends without the capacity error, in a pool
  that satisfies the invariants, with every handle released or live.
\<close>

theorem fresh_run_preserves_invariants:
  assumes "0 < b" and "b + n < 2 ^ 64" and "admissible (fresh b n) cs"
    and "run (fresh b n) cs = Inr (p, hs)"
  shows "pool_inv p \<and> (\<forall>i<length hs. handle_ok p (hs ! i))"
proof -
  have "client_inv (fresh b n)" using assms(1,2) by (rule fresh_client_inv)
  then have "client_inv (p, hs)"
    using run_preserves_invariants[of "fresh b n" cs] assms(3,4) by simp
  then show ?thesis by (simp add: client_inv_def)
qed

section \<open>A request beyond the capacity\<close>



text \<open>
  The request of the older header, when the unclaimed tail is too short, has modified
  the pool when it throws: the entry is appended and \<open>m_last\<close> lies beyond the end of
  the memory.
\<close>

lemma request_old_throws_after_modifying:
  "request_old
     \<lparr>m_memory = \<lparr>sp_data = 4096, sp_size = 1024\<rparr>,
      m_chunks = [\<lparr>m_first = 4096, m_inUse = True\<rparr>], m_last = 5096\<rparr> 100 =
   (Inl runtime_error,
     \<lparr>m_memory = \<lparr>sp_data = 4096, sp_size = 1024\<rparr>,
      m_chunks = [\<lparr>m_first = 4096, m_inUse = True\<rparr>, \<lparr>m_first = 5096, m_inUse = True\<rparr>],
      m_last = 5196\<rparr>)"
  by (simp add: request_old_def size_chunk_old_def span_end_def to_size_t_def distance_def)

section \<open>Shrinking a chunk in a pool that satisfies the invariants\<close>

text \<open>
  In a pool that satisfies the invariants, for a live handle and a new size not above
  the current one, \<open>shrink\<close> succeeds; the handle keeps its start and its pool and
  views the first \<open>n\<close> elements; it is live in the new pool; every address of the
  suffix cut off lies in a free segment or in the unclaimed tail of the new pool; and
  with the current size as the new size nothing changes. (What the other segments
  keep is in \<open>shrink_inv\<close>.)
\<close>

lemma shrink_returns_suffix:
  assumes inv: "pool_inv p" and lv: "live p h" and n: "n \<le> sp_size (m_chunk h)"
  shows "\<exists>p'. shrink h n p = Inr (h\<lparr>m_chunk := span_of (span_begin (m_chunk h)) n\<rparr>, p') \<and>
      live p' (h\<lparr>m_chunk := span_of (span_begin (m_chunk h)) n\<rparr>) \<and>
      (n = sp_size (m_chunk h) \<longrightarrow> shrink h n p = Inr (h, p)) \<and>
      (\<forall>a. span_begin (m_chunk h) + n \<le> a \<and> a < span_end (m_chunk h) \<longrightarrow> free_addr p' a)"
proof -
  let ?h' = "h\<lparr>m_chunk := span_of (span_begin (m_chunk h)) n\<rparr>"
  obtain xs c ys where cs: "m_chunks p = xs @ c # ys" and it: "find_chunk p h = length xs"
    and hit: "m_first c = sp_data (m_chunk h)" and use: "m_inUse c"
    and miss: "\<forall>x\<in>set xs. m_first x \<noteq> sp_data (m_chunk h)"
    and e: "next_start ys (m_last p) = span_end (m_chunk h)"
    using live_split[OF inv lv] by blast
  have pl: "m_pool h = this_pool" using lv by (simp add: live_def)
  show ?thesis
  proof (cases "n = sp_size (m_chunk h)")
    case True
    then have "?h' = h" by (simp add: span_of_def span_begin_def)
    then show ?thesis using True lv by (auto simp: shrink_def span_end_def span_begin_def)
  next
    case False
    have d': "sp_data (m_chunk ?h') = sp_data (m_chunk h)"
      "span_end (m_chunk ?h') = sp_data (m_chunk h) + n"
      by (simp_all add: span_of_def span_begin_def span_end_def)
    have miss': "\<forall>x\<in>set xs. m_first x \<noteq> sp_data (m_chunk ?h')" using miss d' by simp
    have hit': "m_first c = sp_data (m_chunk ?h')" using hit d' by simp
    note rs = resize_decomp[OF cs miss' hit']
    have sh: "\<And>p'. resize p ?h' = Inr p' \<Longrightarrow> shrink h n p = Inr (?h', p')"
      using False n pl by (simp add: shrink_def)
    show ?thesis
    proof (cases ys)
      case Nil
      let ?p' = "p\<lparr>m_last := sp_data (m_chunk h) + n\<rparr>"
      have r: "resize p ?h' = Inr ?p'" using rs Nil d' by simp
      have "find_chunk ?p' ?h' = length xs"
        using it d' by (simp add: find_chunk_def)
      then have lv': "live ?p' ?h'"
        using cs Nil use pl d' by (simp add: live_def seg_end_def)
      have "m_last p \<le> span_end (m_memory p)" using inv by (simp add: pool_inv_def)
      then have fr: "\<forall>a. span_begin (m_chunk h) + n \<le> a \<and> a < span_end (m_chunk h)
          \<longrightarrow> free_addr ?p' a"
        using e Nil by (auto simp: free_addr_def next_start_def span_begin_def)
      show ?thesis using sh[OF r] lv' fr False by blast
    next
      case (Cons y ys')
      show ?thesis
      proof (cases "m_inUse y")
        case True
        let ?d = "\<lparr>m_first = sp_data (m_chunk h) + n, m_inUse = False\<rparr>"
        let ?p' = "p\<lparr>m_chunks := xs @ c # ?d # ys\<rparr>"
        have r: "resize p ?h' = Inr ?p'" using rs Cons True d' by simp
        have "find_chunk ?p' ?h' = length xs"
          using miss' hit' by (simp add: find_chunk_def find_if_hit)
        then have lv': "live ?p' ?h'"
          using use pl d' by (simp add: live_def seg_end_def nth_append)
        have i1: "Suc (length xs) < length (m_chunks ?p')" by simp
        have "seg_end ?p' (Suc (length xs)) = span_end (m_chunk h)"
          using e Cons by (simp add: seg_end_def nth_append next_start_def)
        then have fr: "\<forall>a. span_begin (m_chunk h) + n \<le> a \<and> a < span_end (m_chunk h)
            \<longrightarrow> free_addr ?p' a"
          using i1 unfolding free_addr_def
          by (intro allI impI disjI2 bexI[of _ "Suc (length xs)"])
            (simp_all add: nth_append span_begin_def)
        show ?thesis using sh[OF r] lv' fr False by blast
      next
        case free: False
        let ?d = "y\<lparr>m_first := sp_data (m_chunk h) + n\<rparr>"
        let ?p' = "p\<lparr>m_chunks := xs @ c # ?d # ys'\<rparr>"
        have r: "resize p ?h' = Inr ?p'" using rs Cons free d' by simp
        have "find_chunk ?p' ?h' = length xs"
          using miss' hit' by (simp add: find_chunk_def find_if_hit)
        then have lv': "live ?p' ?h'"
          using use pl d' by (simp add: live_def seg_end_def nth_append)
        have i1: "Suc (length xs) < length (m_chunks ?p')" by simp
        have cs2: "m_chunks p = (xs @ [c]) @ y # ys'" using cs Cons by simp
        have "m_first y < next_start ys' (m_last p)"
          using inv_split(4)[OF inv cs2] .
        moreover have "m_first y = span_end (m_chunk h)"
          using e Cons by (simp add: next_start_def)
        moreover have "seg_end ?p' (Suc (length xs)) = next_start ys' (m_last p)"
          by (cases ys') (simp_all add: seg_end_def nth_append next_start_def)
        ultimately have se: "span_end (m_chunk h) < seg_end ?p' (Suc (length xs))" by simp
        have fr: "\<forall>a. span_begin (m_chunk h) + n \<le> a \<and> a < span_end (m_chunk h)
            \<longrightarrow> free_addr ?p' a"
          using i1 se free unfolding free_addr_def
          by (intro allI impI disjI2 bexI[of _ "Suc (length xs)"])
            (simp_all add: nth_append span_begin_def)
        show ?thesis using sh[OF r] lv' fr False by blast
      qed
    qed
  qed
qed

text \<open>
  In a pool that satisfies the invariants, for a live handle on the last segment and
  a strictly smaller new size, \<open>shrink\<close> changes nothing in the pool but \<open>m_last\<close>,
  which becomes the start of the chunk plus the new size: the segment list is the
  same, so is \<open>unused_chunks()\<close>, and \<open>free_mem()\<close> grows by the number of elements
  cut off.
\<close>

lemma shrink_last_retracts_m_last:
  assumes inv: "pool_inv p" and lv: "live p h"
    and last: "Suc (find_chunk p h) = length (m_chunks p)"
    and n: "n < sp_size (m_chunk h)"
  shows "\<exists>f. shrink h n p =
        Inr (h\<lparr>m_chunk := span_of (span_begin (m_chunk h)) n\<rparr>,
             p\<lparr>m_last := span_begin (m_chunk h) + n\<rparr>) \<and>
      unused_chunks (p\<lparr>m_last := span_begin (m_chunk h) + n\<rparr>) = unused_chunks p \<and>
      free_mem p = Inr f \<and>
      free_mem (p\<lparr>m_last := span_begin (m_chunk h) + n\<rparr>) = Inr (f + (sp_size (m_chunk h) - n))"
proof -
  let ?h' = "h\<lparr>m_chunk := span_of (span_begin (m_chunk h)) n\<rparr>"
  let ?l' = "span_begin (m_chunk h) + n"
  let ?p' = "p\<lparr>m_last := ?l'\<rparr>"
  obtain xs c ys where cs: "m_chunks p = xs @ c # ys" and it: "find_chunk p h = length xs"
    and hit: "m_first c = sp_data (m_chunk h)" and use: "m_inUse c"
    and miss: "\<forall>x\<in>set xs. m_first x \<noteq> sp_data (m_chunk h)"
    and e: "next_start ys (m_last p) = span_end (m_chunk h)"
    using live_split[OF inv lv] by blast
  have ys: "ys = []" using last it cs by simp
  have l: "m_last p = sp_data (m_chunk h) + sp_size (m_chunk h)"
    using e ys by (simp add: next_start_def span_end_def)
  have pl: "m_pool h = this_pool" using lv by (simp add: live_def)
  have d': "sp_data (m_chunk ?h') = sp_data (m_chunk h)" "span_end (m_chunk ?h') = ?l'"
    by (simp_all add: span_of_def span_begin_def span_end_def)
  have miss': "\<forall>x\<in>set xs. m_first x \<noteq> sp_data (m_chunk ?h')" using miss d' by simp
  have hit': "m_first c = sp_data (m_chunk ?h')" using hit d' by simp
  have "resize p ?h' = Inr ?p'"
    using resize_decomp[OF cs miss' hit'] ys d' by simp
  then have sh: "shrink h n p = Inr (?h', ?p')"
    using n pl by (simp add: shrink_def)
  have srt: "sorted_wrt (<) (map m_first (m_chunks p) @ [m_last p])"
    and b: "span_begin (m_memory p) \<le> hd (map m_first (m_chunks p) @ [m_last p])"
    and le: "m_last p \<le> span_end (m_memory p)" "span_end (m_memory p) < 2 ^ 64"
    using inv by (auto simp: pool_inv_def)
  have 1: "sorted_wrt (<) (map m_first (m_chunks ?p'))"
    using srt by (simp add: sorted_wrt_append)
  have "\<forall>x\<in>set xs. m_first x < m_first c"
    using inv_split(1)[OF inv cs] .
  then have 2: "\<forall>x\<in>set (m_chunks ?p'). m_first x \<le> m_last ?p'"
    using cs ys hit by (auto simp: span_begin_def)
  have 3: "span_begin (m_memory ?p') \<le> next_start (m_chunks ?p') (m_last ?p')"
    using b cs by (cases xs) (simp_all add: next_start_def)
  have 4: "m_last ?p' \<le> span_end (m_memory ?p')" "span_end (m_memory ?p') < 2 ^ 64"
    using le l n by (simp_all add: span_begin_def)
  have f': "free_mem ?p' = Inr (size_pool ?p' - used_sum (m_chunks ?p') (m_last ?p'))"
    using free_mem_eq(1)[OF 1 2 3 4] .
  have f: "free_mem p = Inr (size_pool p - used_sum (m_chunks p) (m_last p))"
    and u: "used_sum (m_chunks p) (m_last p) \<le> size_pool p"
    using inv_free_mem[OF inv] by auto
  have "used_sum (xs @ [c]) (m_last p) = used_sum (xs @ [c]) ?l' + (m_last p - ?l')"
    using use hit l n by (intro used_sum_last) (simp_all add: span_begin_def)
  then have us: "used_sum (m_chunks p) (m_last p)
      = used_sum (m_chunks p) ?l' + (sp_size (m_chunk h) - n)"
    using cs ys l by (simp add: span_begin_def)
  have "size_pool p - used_sum (m_chunks p) ?l'
      = size_pool p - used_sum (m_chunks p) (m_last p) + (sp_size (m_chunk h) - n)"
    using us u by simp
  then have "free_mem ?p' =
      Inr (size_pool p - used_sum (m_chunks p) (m_last p) + (sp_size (m_chunk h) - n))"
    using f' by (simp add: size_pool_def)
  then show ?thesis using sh f by (simp add: unused_chunks_def)
qed

section \<open>Request followed by release in a pool that satisfies the invariants\<close>

lemma release_after_request:
  assumes inv: "pool_inv p" and sz: "sz < size_pool p"
  shows "case request p sz of
           (Inl e, p') \<Rightarrow> e = overflow_error \<and> p' = p
         | (Inr h, p') \<Rightarrow> Chunk_release h p' = Inr (h\<lparr>m_chunk := span_default\<rparr>, p)"
proof (cases "\<forall>c\<in>set (m_chunks p). fits p sz c = Inr False")
  case True
  have le: "m_last p \<le> span_end (m_memory p)" using inv by (simp add: pool_inv_def)
  have req: "request p sz =
     (if to_size_t (distance (m_last p) (span_end (m_memory p))) < sz then (Inl overflow_error, p)
      else (Inr \<lparr>m_chunk = span_of (m_last p) sz, m_pool = this_pool\<rparr>,
            p\<lparr>m_chunks := m_chunks p @ [\<lparr>m_first = m_last p, m_inUse = True\<rparr>],
              m_last := m_last p + sz\<rparr>))"
    using sz True le by (intro request_append) (simp_all add: size_pool_def)
  show ?thesis
  proof (cases "to_size_t (distance (m_last p) (span_end (m_memory p))) < sz")
    case True
    then show ?thesis using req by simp
  next
    case False
    let ?h = "\<lparr>m_chunk = span_of (m_last p) sz, m_pool = this_pool\<rparr>"
    let ?p' = "p\<lparr>m_chunks := m_chunks p @ [\<lparr>m_first = m_last p, m_inUse = True\<rparr>],
              m_last := m_last p + sz\<rparr>"
    have "sorted_wrt (<) (map m_first (m_chunks p) @ [m_last p])"
      using inv by (simp add: pool_inv_def)
    then have miss: "\<forall>x\<in>set (m_chunks p). m_first x \<noteq> sp_data (m_chunk ?h)"
      by (auto simp: sorted_wrt_append span_of_def)
    have lst: "m_chunks p = [] \<or> m_inUse (last (m_chunks p))"
      using inv by (simp add: pool_inv_def)
    have "release ?p' ?h = Inr p"
      using release_decomp[of ?p' "m_chunks p" "\<lparr>m_first = m_last p, m_inUse = True\<rparr>" "[]" ?h] miss lst
      by (auto simp: span_of_def)
    then have "Chunk_release ?h ?p' = Inr (?h\<lparr>m_chunk := span_default\<rparr>, p)"
      by (simp add: Chunk_release_def)
    then show ?thesis using req False by simp
  qed
next
  case False
  then have "\<exists>c\<in>set (m_chunks p). \<not> fits p sz c = Inr False" by blast
  then obtain xs c ys where cs: "m_chunks p = xs @ c # ys"
    and hit: "fits p sz c \<noteq> Inr False" and later: "\<forall>y\<in>set ys. fits p sz y = Inr False"
    using split_list_last_prop[of "m_chunks p" "\<lambda>c. fits p sz c \<noteq> Inr False"] by auto
  have "c \<in> set (m_chunks p)" using cs by simp
  then obtain s where free: "\<not> m_inUse c" and s: "size_chunk p c = Inr s" "sz \<le> s"
    using fits_total[of c p sz] hit by auto
  have lt: "\<forall>x\<in>set xs. m_first x < m_first c" using inv cs by (rule inv_split)
  then have miss: "\<forall>x\<in>set xs. m_first x \<noteq> m_first c" by auto
  let ?h = "\<lparr>m_chunk = span_of (m_first c) sz, m_pool = this_pool\<rparr>"
  let ?rest = "if s \<noteq> sz
           then \<lparr>m_first = m_first c + sz, m_inUse = False\<rparr> # ys
           else ys"
  let ?p' = "p\<lparr>m_chunks := xs @ c\<lparr>m_inUse := True\<rparr> # ?rest\<rparr>"
  have req: "request p sz = (Inr ?h, ?p')"
    using request_reuse[OF _ cs free s later miss] sz by (simp add: size_pool_def)
  have nb: "ys \<noteq> []" "m_inUse (hd ys)" "xs = [] \<or> m_inUse (last xs)"
    using inv_free_neighbours[OF inv cs free] by auto
  have miss': "\<forall>x\<in>set xs. m_first x \<noteq> sp_data (m_chunk ?h)"
    using miss by (simp add: span_of_def)
  have "release ?p' ?h = Inr p"
    using release_decomp[of ?p' xs "c\<lparr>m_inUse := True\<rparr>" ?rest ?h] miss' nb free cs
    by (auto simp: span_of_def mark_free_id)
  then have "Chunk_release ?h ?p' = Inr (?h\<lparr>m_chunk := span_default\<rparr>, p)"
    by (simp add: Chunk_release_def)
  then show ?thesis using req by simp
qed

lemma request_fresh:
  assumes "pool_inv p" and "sz < size_pool p"
    and "m_chunks p = []" and "m_last p = span_begin (m_memory p)"
  shows "\<exists>h p'. request p sz = (Inr h, p')" and "free_mem p = Inr (size_pool p)"
proof -
  have e: "span_end (m_memory p) < 2 ^ 64" using assms(1) by (simp add: pool_inv_def)
  have "to_size_t (distance (m_last p) (span_end (m_memory p))) = size_pool p"
    using assms(4) e to_size_t_distance[of "m_last p" "span_end (m_memory p)"]
    by (simp add: span_begin_def span_end_def size_pool_def)
  then show "\<exists>h p'. request p sz = (Inr h, p')"
    using request_append[of sz p] assms(2,3,4)
    by (simp add: size_pool_def span_begin_def span_end_def)
  show "free_mem p = Inr (size_pool p)"
    using inv_free_mem(1)[OF assms(1)] assms(3) by simp
qed

text \<open>
  In a pool that satisfies the invariants, a request of a size below that of the
  memory either throws the capacity error and leaves the pool as it was, or returns a
  chunk whose release, called next, succeeds and gives back the very pool of before
  the request, so \<open>free_mem()\<close> has the value it had. From a fresh pool the request
  succeeds, and that value is \<open>size()\<close>.
\<close>

lemma request_release_restores_free_mem:
  assumes "pool_inv p" and "0 < sz" and "sz < size_pool p"
  shows "(case request p sz of
            (Inl e, p') \<Rightarrow> e = overflow_error \<and> p' = p
          | (Inr h, p') \<Rightarrow>
              (case Chunk_release h p' of
                 Inl e \<Rightarrow> False
               | Inr (h', p'') \<Rightarrow> p'' = p \<and> free_mem p'' = free_mem p)) \<and>
         (m_chunks p = [] \<and> m_last p = span_begin (m_memory p) \<longrightarrow>
            (\<exists>h p'. request p sz = (Inr h, p')) \<and> free_mem p = Inr (size_pool p))"
proof
  show "case request p sz of
            (Inl e, p') \<Rightarrow> e = overflow_error \<and> p' = p
          | (Inr h, p') \<Rightarrow>
              (case Chunk_release h p' of
                 Inl e \<Rightarrow> False
               | Inr (h', p'') \<Rightarrow> p'' = p \<and> free_mem p'' = free_mem p)"
    using release_after_request[OF assms(1,3)]
    by (auto split: prod.splits sum.splits)
  show "m_chunks p = [] \<and> m_last p = span_begin (m_memory p) \<longrightarrow>
            (\<exists>h p'. request p sz = (Inr h, p')) \<and> free_mem p = Inr (size_pool p)"
    using request_fresh[OF assms(1,3)] by blast
qed

section \<open>Moving and releasing a handle\<close>

text \<open>
  C9, as stated, fails for the move assignment: the assignment swaps the two handles,
  so a source moved into a live destination holds the destination's former span and
  pool afterwards; it is valid and its view is not empty.
\<close>

theorem C9_counterexample:
  "\<not> (let dst = \<lparr>m_chunk = \<lparr>sp_data = 4096, sp_size = 10\<rparr>, m_pool = this_pool\<rparr>;
           src = \<lparr>m_chunk = \<lparr>sp_data = 4106, sp_size = 20\<rparr>, m_pool = this_pool\<rparr>;
           (dst', src') = Chunk_move_assign dst src
        in dst' = src \<and> \<not> valid src' \<and> m_chunk src' = span_default \<and> m_pool src' = nullptr)"
  by (simp add: Chunk_move_assign_def valid_def span_default_def)

text \<open>
  C9, amended. The move constructor gives the new handle the span and the pool
  reference of the source and leaves the source as a default handle: invalid, with
  the empty span and no pool. The move assignment exchanges the span and the pool
  reference of the two handles: the destination receives those of the source, and
  the source receives those the destination had.
\<close>

theorem C9_move_swaps:
  "Chunk_move_ctor orig = (orig, Chunk_default) \<and>
   \<not> valid Chunk_default \<and> m_chunk Chunk_default = span_default \<and>
   m_pool Chunk_default = nullptr \<and>
   Chunk_move_assign this orig = (orig, this)"
  by (simp add: Chunk_move_ctor_def Chunk_move_assign_def Chunk_default_def valid_def)

text \<open>
  \<open>Chunk::release()\<close> never changes \<open>m_pool\<close>: the answer of \<open>valid()\<close> after a
  release is the answer before it.
\<close>

lemma Chunk_release_keeps_valid: "Chunk_release c p = Inr (c', p') \<Longrightarrow> valid c' = valid c"
  by (auto simp: Chunk_release_def valid_def split: pool_ptr.splits sum.splits)

text \<open>
  C2, at the failing input: after one request and the release of the returned
  handle, the pool is empty again, but the handle still refers to the pool, so
  \<open>valid()\<close> answers true; a second \<open>release()\<close> of that handle looks for a segment
  at \<open>nullptr\<close>, finds none and fails the assertion of the pool's \<open>release\<close>.
\<close>

theorem C2_release_keeps_pool_reference:
  "run (fresh 4096 1024) [Request 10, Release 0] =
     Inr (new_pool (span_of 4096 1024), [\<lparr>m_chunk = span_default, m_pool = this_pool\<rparr>]) \<and>
   valid \<lparr>m_chunk = span_default, m_pool = this_pool\<rparr> \<and>
   run (fresh 4096 1024) [Request 10, Release 0, Release 0] = Inl assert_failed"
  by (simp add: pool_defs valid_def)

section \<open>Runs from a fresh pool\<close>

text \<open>Every order of a list without repetitions is among \<open>orders\<close>.\<close>

lemma insert_everywhere_hd: "x # bs \<in> set (insert_everywhere x bs)"
  by (cases bs) simp_all

lemma insert_everywhere_mem: "as @ x # bs \<in> set (insert_everywhere x (as @ bs))"
  by (induction as) (simp_all add: insert_everywhere_hd)

lemma orders_complete:
  "distinct xs \<Longrightarrow> distinct ys \<Longrightarrow> set ys = set xs \<Longrightarrow> ys \<in> set (orders xs)"
proof (induction xs arbitrary: ys)
  case Nil
  then show ?case by simp
next
  case (Cons x xs)
  have "x \<in> set ys" using Cons.prems(3) by simp
  then obtain as bs where ys: "ys = as @ x # bs"
    by (auto simp: in_set_conv_decomp)
  have d: "distinct (as @ bs)" and nx: "x \<notin> set (as @ bs)"
    using Cons.prems(2) ys by auto
  have "set (as @ bs) = set xs"
    using Cons.prems(1,3) ys nx by auto
  then have "as @ bs \<in> set (orders xs)"
    using Cons.IH[of "as @ bs"] Cons.prems(1) d by simp
  then show ?case
    using insert_everywhere_mem[of as x bs] ys by auto
qed

text \<open>
  C1, at the failing input: two requests of 10 elements and the shrinking of the
  first chunk to 0 elements, which the assertion of \<open>shrink\<close> admits, leave a free
  segment that starts where the shrunk chunk's segment starts: the starts are no
  longer strictly increasing. (With sizes of at least one element the invariants
  are preserved: \<open>run_preserves_invariants\<close>.)
\<close>

theorem C1_shrink_to_zero_repeats_start:
  "case run (fresh b 1024) [Request 10, Request 10, Shrink 0 0] of
     Inl e \<Rightarrow> False
   | Inr (p, hs) \<Rightarrow>
       m_chunks p = [\<lparr>m_first = b, m_inUse = True\<rparr>, \<lparr>m_first = b, m_inUse = False\<rparr>,
                     \<lparr>m_first = b + 10, m_inUse = True\<rparr>] \<and>
       \<not> sorted_wrt (<) (map m_first (m_chunks p))"
  by (simp add: pool_defs)

text \<open>
  C10, at the failing input: after a chunk at the tail is shrunk to 0 elements, the
  next request starts a second segment at the same address; the calls that follow
  are each within their preconditions, and they end with a segment list whose only,
  and so last, segment is free.
\<close>

theorem C10_free_segment_at_tail:
  "case run (fresh b 1024)
          [Request 10, Request 10, Shrink 1 0, Request 10, Release 1, Shrink 2 5,
           Release 0, Release 2] of
     Inl e \<Rightarrow> False
   | Inr (p, hs) \<Rightarrow>
       m_chunks p = [\<lparr>m_first = b, m_inUse = False\<rparr>] \<and> m_last p = b + 15 \<and>
       \<not> m_inUse (last (m_chunks p))"
  by (simp add: pool_defs)

text \<open>
  C4, at the failing input: with chunks of 10 and of 1013 elements in a memory of 1024
  elements, the first chunk is shrunk to 0 elements. The handle views 0 elements at
  its start, and a free entry stands behind the chunk's entry, at the same start.
  \<open>size(c)\<close> looks up the first entry with that start and so gives the free entry the
  size 0; \<open>free_mem()\<close> is 11, yet the request of 5 elements that follows finds no
  segment and throws the capacity error: the 10 elements cut off are not available
  to the pool. After shrinking to 1 element instead, the same request is served from
  the 9 elements cut off, at \<open>b + 1\<close>.
\<close>

theorem C4_shrink_to_zero_suffix_not_available:
  "run (fresh b 1024) [Request 10, Request 1013, Shrink 0 0] =
     Inr (\<lparr>m_memory = \<lparr>sp_data = b, sp_size = 1024\<rparr>,
            m_chunks = [\<lparr>m_first = b, m_inUse = True\<rparr>, \<lparr>m_first = b, m_inUse = False\<rparr>,
                        \<lparr>m_first = b + 10, m_inUse = True\<rparr>],
            m_last = b + 1023\<rparr>,
          [\<lparr>m_chunk = \<lparr>sp_data = b, sp_size = 0\<rparr>, m_pool = this_pool\<rparr>,
           \<lparr>m_chunk = \<lparr>sp_data = b + 10, sp_size = 1013\<rparr>, m_pool = this_pool\<rparr>]) \<and>
   free_sizes
     \<lparr>m_memory = \<lparr>sp_data = b, sp_size = 1024\<rparr>,
      m_chunks = [\<lparr>m_first = b, m_inUse = True\<rparr>, \<lparr>m_first = b, m_inUse = False\<rparr>,
                  \<lparr>m_first = b + 10, m_inUse = True\<rparr>],
      m_last = b + 1023\<rparr> = [Inr 0] \<and>
   free_mem
     \<lparr>m_memory = \<lparr>sp_data = b, sp_size = 1024\<rparr>,
      m_chunks = [\<lparr>m_first = b, m_inUse = True\<rparr>, \<lparr>m_first = b, m_inUse = False\<rparr>,
                  \<lparr>m_first = b + 10, m_inUse = True\<rparr>],
      m_last = b + 1023\<rparr> = Inr 11 \<and>
   run (fresh b 1024) [Request 10, Request 1013, Shrink 0 0, Request 5] = Inl overflow_error \<and>
   run (fresh b 1024) [Request 10, Request 1013, Shrink 0 1, Request 5] =
     Inr (\<lparr>m_memory = \<lparr>sp_data = b, sp_size = 1024\<rparr>,
            m_chunks = [\<lparr>m_first = b, m_inUse = True\<rparr>, \<lparr>m_first = b + 1, m_inUse = True\<rparr>,
                        \<lparr>m_first = b + 6, m_inUse = False\<rparr>, \<lparr>m_first = b + 10, m_inUse = True\<rparr>],
            m_last = b + 1023\<rparr>,
          [\<lparr>m_chunk = \<lparr>sp_data = b, sp_size = 1\<rparr>, m_pool = this_pool\<rparr>,
           \<lparr>m_chunk = \<lparr>sp_data = b + 10, sp_size = 1013\<rparr>, m_pool = this_pool\<rparr>,
           \<lparr>m_chunk = \<lparr>sp_data = b + 1, sp_size = 5\<rparr>, m_pool = this_pool\<rparr>])"
  by (simp add: pool_defs free_sizes_def free_mem_def used_mem_def size_pool_def)

text \<open>
  C5, at the failing input: after the second chunk is shrunk to 0 elements at the
  tail, a third chunk of 10 elements is requested and the second is released; the
  third chunk is live and its segment is the last one, behind the freed entry with
  the same start. Shrinking the third chunk to 5 elements, \<open>find_chunk\<close> finds the
  freed entry, which has a successor: \<open>resize\<close> inserts a free entry at \<open>b + 15\<close> and
  leaves \<open>m_last\<close> at \<open>b + 20\<close>; \<open>unused_chunks()\<close> goes from 1 to 2 and \<open>free_mem()\<close>
  falls from 1014 to 1009.
\<close>

theorem C5_shrink_last_after_shrink_to_zero:
  "case run (fresh b 1024) [Request 10, Request 10, Shrink 1 0, Request 10, Release 1] of
     Inl e \<Rightarrow> False
   | Inr (p, hs) \<Rightarrow>
       m_chunks p = [\<lparr>m_first = b, m_inUse = True\<rparr>, \<lparr>m_first = b + 10, m_inUse = False\<rparr>,
                     \<lparr>m_first = b + 10, m_inUse = True\<rparr>] \<and>
       m_last p = b + 20 \<and>
       hs ! 2 = \<lparr>m_chunk = \<lparr>sp_data = b + 10, sp_size = 10\<rparr>, m_pool = this_pool\<rparr> \<and>
       unused_chunks p = 1 \<and> free_mem p = Inr 1014 \<and>
       (case step (p, hs) (Shrink 2 5) of
          Inl e \<Rightarrow> False
        | Inr (p', hs') \<Rightarrow>
            hs' ! 2 = \<lparr>m_chunk = \<lparr>sp_data = b + 10, sp_size = 5\<rparr>, m_pool = this_pool\<rparr> \<and>
            m_chunks p' = [\<lparr>m_first = b, m_inUse = True\<rparr>, \<lparr>m_first = b + 10, m_inUse = False\<rparr>,
                           \<lparr>m_first = b + 15, m_inUse = False\<rparr>, \<lparr>m_first = b + 10, m_inUse = True\<rparr>] \<and>
            m_last p' = b + 20 \<and> unused_chunks p' = 2 \<and> free_mem p' = Inr 1009)"
  by (simp add: pool_defs unused_chunks_def free_mem_def used_mem_def size_pool_def)

text \<open>
  C6, at the failing input: the run below, each call within its precondition, leaves
  a free entry at \<open>b + 15\<close> in front of an entry at \<open>b + 10\<close>, and \<open>free_mem()\<close> is
  1004. The size of that free entry is the distance \<open>- 5\<close> as a \<open>size_t\<close>, so the
  request of 100 elements takes it; the release of the returned chunk merges it into
  the free entry before it and erases the remainder: the segment list is not the
  one of before the request, and \<open>free_mem()\<close> is 1009.
\<close>

theorem C6_request_release_after_shrink_to_zero:
  "case run (fresh b 1024)
          [Request 10, Request 10, Shrink 1 0, Request 10, Release 1, Request 5, Shrink 2 5] of
     Inl e \<Rightarrow> False
   | Inr (p, hs) \<Rightarrow>
       m_chunks p = [\<lparr>m_first = b, m_inUse = True\<rparr>, \<lparr>m_first = b + 10, m_inUse = False\<rparr>,
                     \<lparr>m_first = b + 15, m_inUse = False\<rparr>, \<lparr>m_first = b + 10, m_inUse = True\<rparr>,
                     \<lparr>m_first = b + 20, m_inUse = True\<rparr>] \<and>
       m_last p = b + 25 \<and> free_mem p = Inr 1004 \<and>
       (case request p 100 of
          (Inl e, p') \<Rightarrow> False
        | (Inr h, p') \<Rightarrow>
            h = \<lparr>m_chunk = \<lparr>sp_data = b + 15, sp_size = 100\<rparr>, m_pool = this_pool\<rparr> \<and>
            (case Chunk_release h p' of
               Inl e \<Rightarrow> False
             | Inr (h', p'') \<Rightarrow>
                 m_chunks p'' = [\<lparr>m_first = b, m_inUse = True\<rparr>, \<lparr>m_first = b + 10, m_inUse = False\<rparr>,
                                 \<lparr>m_first = b + 10, m_inUse = True\<rparr>, \<lparr>m_first = b + 20, m_inUse = True\<rparr>] \<and>
                 m_last p'' = b + 25 \<and> free_mem p'' = Inr 1009 \<and> p'' \<noteq> p))"
  by (simp add: pool_defs free_mem_def used_mem_def size_pool_def)

text \<open>
  A further consequence of a chunk shrunk to 0 elements: the size of a free segment
  that is followed by a segment with a smaller start is a negative distance,
  converted to a huge \<open>size_t\<close>; the segment then fits any request, and the request
  of 100 elements below returns the chunk from \<open>b + 15\<close> to \<open>b + 115\<close>, which
  contains the live chunk from \<open>b + 20\<close> to \<open>b + 25\<close>.
\<close>

lemma shrink_to_zero_overlapping_chunks:
  "case run (fresh b 1024)
          [Request 10, Request 10, Shrink 1 0, Request 10, Release 1, Request 5,
           Shrink 2 5, Request 100] of
     Inl e \<Rightarrow> False
   | Inr (p, hs) \<Rightarrow>
       hs ! 3 = \<lparr>m_chunk = \<lparr>sp_data = b + 20, sp_size = 5\<rparr>, m_pool = this_pool\<rparr> \<and>
       hs ! 4 = \<lparr>m_chunk = \<lparr>sp_data = b + 15, sp_size = 100\<rparr>, m_pool = this_pool\<rparr> \<and>
       live p (hs ! 3)"
  by (simp add: pool_defs live_def seg_end_def)

text \<open>
  C8. In a fresh pool over 1024 elements at the address \<open>b\<close>, a request of 10
  elements returns the chunk of 10 elements at \<open>b\<close>, bound to the pool, and moves
  \<open>m_last\<close> to \<open>b + 10\<close>; the release of the chunk empties the segment list and
  moves \<open>m_last\<close> back to \<open>b\<close>; a second request of 10 elements returns a chunk of
  10 elements that starts at \<open>b\<close> again, and \<open>m_last\<close> is \<open>b + 10\<close> as after the
  first request.
\<close>

theorem C8_released_region_is_reused:
  "run (fresh b 1024) [Request 10] =
     Inr (\<lparr>m_memory = \<lparr>sp_data = b, sp_size = 1024\<rparr>,
            m_chunks = [\<lparr>m_first = b, m_inUse = True\<rparr>], m_last = b + 10\<rparr>,
          [\<lparr>m_chunk = \<lparr>sp_data = b, sp_size = 10\<rparr>, m_pool = this_pool\<rparr>]) \<and>
   run (fresh b 1024) [Request 10, Release 0] =
     Inr (\<lparr>m_memory = \<lparr>sp_data = b, sp_size = 1024\<rparr>, m_chunks = [], m_last = b\<rparr>,
          [\<lparr>m_chunk = \<lparr>sp_data = 0, sp_size = 0\<rparr>, m_pool = this_pool\<rparr>]) \<and>
   run (fresh b 1024) [Request 10, Release 0, Request 10] =
     Inr (\<lparr>m_memory = \<lparr>sp_data = b, sp_size = 1024\<rparr>,
            m_chunks = [\<lparr>m_first = b, m_inUse = True\<rparr>], m_last = b + 10\<rparr>,
          [\<lparr>m_chunk = \<lparr>sp_data = 0, sp_size = 0\<rparr>, m_pool = this_pool\<rparr>,
           \<lparr>m_chunk = \<lparr>sp_data = b, sp_size = 10\<rparr>, m_pool = this_pool\<rparr>])"
  by (simp add: pool_defs)



end
